theory Spec2Isabelle
  imports Main "HOL-Library.Monad_Syntax"
begin

section \<open>The ranked combinator of libtools (rcomb.c)\<close>

text \<open>
  A shallow embedding of \<^verbatim>\<open>src/lib/libtools/rcomb.c\<close>: the max-heap, the permutation
  container, the partial order with its closure, the hill climber and the best-first
  driver. C \<^verbatim>\<open>int\<close> indices, sizes and capacities are natural numbers (the code keeps
  them non-negative and far below \<^verbatim>\<open>INT_MAX\<close>), heap keys and scores are integers, and
  every \<^verbatim>\<open>assert\<close> of the source is a \<open>None\<close> result of the model. Trace output
  (\<^verbatim>\<open>printf\<close>, \<^verbatim>\<open>pmPrint\<close>) is left out.
\<close>

subsection \<open>Heap (lines 13--115)\<close>

record 'v heap_elt_t =
  key :: int
  val :: 'v

text \<open>
  \<^verbatim>\<open>heap_t\<close>: \<open>heap_data\<close> has \<open>heap_capacity + 1\<close> slots and slot 0 is unused.
  \<^verbatim>\<open>malloc\<close> leaves the slots unspecified; \<open>heap_new\<close> takes the element \<open>junk\<close> that
  stands for their content.
\<close>

record 'v heap_t =
  heap_size :: nat
  heap_capacity :: nat
  heap_data :: "'v heap_elt_t list"

definition PARENT :: "nat \<Rightarrow> nat" where
  "PARENT n = n div 2"

definition LEFT :: "nat \<Rightarrow> nat" where
  "LEFT n = 2 * n"

definition RIGHT :: "nat \<Rightarrow> nat" where
  "RIGHT n = 2 * n + 1"

definition heap_new :: "'v heap_elt_t \<Rightarrow> nat \<Rightarrow> 'v heap_t" where
  "heap_new junk n =
     \<lparr>heap_size = 0, heap_capacity = n, heap_data = replicate (n + 1) junk\<rparr>"

text \<open>
  \<^verbatim>\<open>heapify\<close>, as written: the left child is considered when \<^verbatim>\<open>l < heap->size\<close>, and the
  test for the right child compares \<^verbatim>\<open>data[i].key\<close> with \<^verbatim>\<open>data[largest].key\<close>.
\<close>

function heapify :: "'v heap_t \<Rightarrow> nat \<Rightarrow> 'v heap_t" where
  "heapify heap i =
     (let l = LEFT i;
          r = RIGHT i;
          largest = (if l < heap_size heap \<and> key (heap_data heap ! l) > key (heap_data heap ! i)
                     then l else i);
          largest = (if r < heap_size heap \<and> key (heap_data heap ! i) > key (heap_data heap ! largest)
                     then r else largest)
      in if largest \<noteq> i
         then let tmp = heap_data heap ! i;
                  d = (heap_data heap)[i := heap_data heap ! largest];
                  d = d[largest := tmp]
              in heapify (heap\<lparr>heap_data := d\<rparr>) largest
         else heap)"
  by pat_completeness auto
termination
  by (relation "measure (\<lambda>(heap, i). heap_size heap - i)")
     (auto simp: LEFT_def RIGHT_def Let_def split: if_splits)

declare heapify.simps [simp del]

definition heap_extract_max :: "'v heap_t \<Rightarrow> ('v \<times> 'v heap_t) option" where
  "heap_extract_max heap =
     (if \<not> heap_size heap > 0 then None
      else let max = heap_data heap ! 1;
               heap = heap\<lparr>heap_data := (heap_data heap)[1 := heap_data heap ! heap_size heap]\<rparr>;
               heap = heap\<lparr>heap_size := heap_size heap - 1\<rparr>
           in Some (val max, heapify heap 1))"

definition heap_max :: "'v heap_t \<Rightarrow> 'v option" where
  "heap_max heap = (if \<not> heap_size heap > 0 then None else Some (val (heap_data heap ! 1)))"

text \<open>The sift-up loop of \<^verbatim>\<open>heap_insert\<close>: returns the buffer and the final \<open>i\<close>.\<close>

function heap_insert_loop :: "'v heap_elt_t list \<Rightarrow> nat \<Rightarrow> int \<Rightarrow> 'v heap_elt_t list \<times> nat" where
  "heap_insert_loop d i k =
     (if i > 1 \<and> key (d ! PARENT i) < k
      then heap_insert_loop (d[i := d ! PARENT i]) (PARENT i) k
      else (d, i))"
  by pat_completeness auto
termination
  by (relation "measure (\<lambda>(d, i, k). i)") (auto simp: PARENT_def)

declare heap_insert_loop.simps [simp del]

definition heap_insert :: "'v heap_t \<Rightarrow> int \<Rightarrow> 'v \<Rightarrow> 'v heap_t option" where
  "heap_insert heap k v =
     (if \<not> heap_size heap < heap_capacity heap then None
      else let heap = heap\<lparr>heap_size := heap_size heap + 1\<rparr>;
               (d, i) = heap_insert_loop (heap_data heap) (heap_size heap) k
           in Some (heap\<lparr>heap_data := d[i := \<lparr>key = k, val = v\<rparr>]\<rparr>))"

text \<open>Test harness: a sequence of heap operations, run in order; the extracted values are
  collected. \<open>None\<close> when an assertion of the heap fails.\<close>

datatype 'v heap_op = Insert int 'v | Extract_max

fun heap_run :: "'v heap_t \<Rightarrow> 'v heap_op list \<Rightarrow> ('v list \<times> 'v heap_t) option" where
  "heap_run heap [] = Some ([], heap)"
| "heap_run heap (Insert k v # ops) =
     (case heap_insert heap k v of
        None \<Rightarrow> None
      | Some heap' \<Rightarrow> heap_run heap' ops)"
| "heap_run heap (Extract_max # ops) =
     (case heap_extract_max heap of
        None \<Rightarrow> None
      | Some (v, heap') \<Rightarrow>
          (case heap_run heap' ops of
             None \<Rightarrow> None
           | Some (vs, heap'') \<Rightarrow> Some (v # vs, heap'')))"

subsection \<open>Permutations (lines 120--284)\<close>

text \<open>
  \<^verbatim>\<open>permutation_t\<close> is declared in \<^verbatim>\<open>rcomb.h\<close>, which is not among the sources; its fields
  are read off their uses in \<^verbatim>\<open>rcomb.c\<close>. Element identifiers (\<^verbatim>\<open>pelt_t\<close>) are natural
  numbers. Every permutation of the model is live, so \<^verbatim>\<open>PM_CHECK_VALID\<close> holds and the
  \<^verbatim>\<open>valid\<close> field is left out. \<^verbatim>\<open>pmNew\<close> leaves the buffer unspecified; the model fills it
  with 0.
\<close>

record permutation_t =
  pm_size :: nat
  pm_capacity :: nat
  elements :: "nat list"

definition pmNew :: "nat \<Rightarrow> permutation_t" where
  "pmNew n = \<lparr>pm_size = 0, pm_capacity = n, elements = replicate n 0\<rparr>"

definition pmCopy :: "permutation_t \<Rightarrow> permutation_t \<Rightarrow> permutation_t option" where
  "pmCopy copy ptr =
     (if \<not> pm_capacity copy \<ge> pm_size ptr then None
      else Some (copy\<lparr>elements := fold (\<lambda>i es. es[i := elements ptr ! i]) [0..<pm_size ptr] (elements copy),
                       pm_size := pm_size ptr\<rparr>))"

definition pmCopyAll :: "permutation_t \<Rightarrow> permutation_t \<Rightarrow> permutation_t option" where
  "pmCopyAll copy ptr =
     (if \<not> pm_capacity copy \<ge> pm_capacity ptr then None
      else Some (copy\<lparr>elements := fold (\<lambda>i es. es[i := elements ptr ! i]) [0..<pm_capacity ptr] (elements copy),
                       pm_size := pm_size ptr\<rparr>))"

definition pmDup :: "permutation_t \<Rightarrow> permutation_t" where
  "pmDup ptr =
     (let copy = pmNew (pm_capacity ptr)
      in copy\<lparr>elements := fold (\<lambda>i es. es[i := elements ptr ! i]) [0..<pm_capacity ptr] (elements copy),
              pm_size := pm_size ptr\<rparr>)"

definition pmElt :: "permutation_t \<Rightarrow> nat \<Rightarrow> nat option" where
  "pmElt pm i = (if \<not> i < pm_capacity pm then None else Some (elements pm ! i))"

definition pmSetElt :: "permutation_t \<Rightarrow> nat \<Rightarrow> nat \<Rightarrow> permutation_t option" where
  "pmSetElt pm i v =
     (if \<not> i < pm_capacity pm then None
      else let pm = (if i \<ge> pm_size pm then pm\<lparr>pm_size := i + 1\<rparr> else pm)
           in Some (pm\<lparr>elements := (elements pm)[i := v]\<rparr>))"

definition pmSize :: "permutation_t \<Rightarrow> nat" where
  "pmSize pm = pm_size pm"

definition pmSetSize :: "permutation_t \<Rightarrow> nat \<Rightarrow> permutation_t option" where
  "pmSetSize pm n = (if \<not> n \<le> pm_capacity pm then None else Some (pm\<lparr>pm_size := n\<rparr>))"

definition pmIdentity :: "permutation_t \<Rightarrow> permutation_t" where
  "pmIdentity pm =
     pm\<lparr>elements := fold (\<lambda>i es. es[i := i]) [0..<pm_capacity pm] (elements pm),
        pm_size := pm_capacity pm\<rparr>"

definition pmLength :: "permutation_t \<Rightarrow> nat" where
  "pmLength pm = pm_size pm"

text \<open>\<^verbatim>\<open>pmSwap\<close> checks no index (its assertions are commented out in the source).\<close>

definition pmSwap :: "permutation_t \<Rightarrow> nat \<Rightarrow> nat \<Rightarrow> permutation_t" where
  "pmSwap pm i j =
     (let tmp = elements pm ! i;
          es = (elements pm)[i := elements pm ! j];
          es = es[j := tmp]
      in pm\<lparr>elements := es\<rparr>)"

subsection \<open>Partial orders (lines 286--420)\<close>

text \<open>
  Modelled from the spec: \<^verbatim>\<open>po_relation_t\<close> is declared in \<^verbatim>\<open>rcomb.h\<close>, which is not among
  the sources. The spec gives the four relations and \<open>inverse(LT) = GT\<close>,
  \<open>inverse(GT) = LT\<close>, \<open>inverse(EQ) = EQ\<close>, \<open>inverse(INCOMPARABLE) = INCOMPARABLE\<close>;
  \<^verbatim>\<open>poInverse\<close> computes it as \<^verbatim>\<open>rel == PO_INCOMPARABLE ? rel : -rel\<close>.
\<close>

datatype po_relation_t = PO_EQ | PO_LT | PO_GT | PO_INCOMPARABLE

record partial_order_t =
  po_dim :: nat
  po_data :: "po_relation_t list"

definition poNew :: "nat \<Rightarrow> partial_order_t" where
  "poNew n = \<lparr>po_dim = n, po_data = replicate (n * n) PO_INCOMPARABLE\<rparr>"

fun poInverse :: "po_relation_t \<Rightarrow> po_relation_t" where
  "poInverse PO_INCOMPARABLE = PO_INCOMPARABLE"
| "poInverse PO_LT = PO_GT"
| "poInverse PO_GT = PO_LT"
| "poInverse PO_EQ = PO_EQ"

definition poSetOrder :: "partial_order_t \<Rightarrow> nat \<Rightarrow> nat \<Rightarrow> po_relation_t \<Rightarrow> partial_order_t option" where
  "poSetOrder po u v rel =
     (if \<not> u < po_dim po then None
      else if \<not> v < po_dim po then None
      else let d = (po_data po)[u * po_dim po + v := rel];
               d = d[v * po_dim po + u := poInverse rel]
           in Some (po\<lparr>po_data := d\<rparr>))"

definition poGet :: "partial_order_t \<Rightarrow> nat \<Rightarrow> nat \<Rightarrow> po_relation_t option" where
  "poGet po u v =
     (if \<not> u < po_dim po then None
      else if \<not> v < po_dim po then None
      else Some (po_data po ! (u * po_dim po + v)))"

definition poIncomparable :: "partial_order_t \<Rightarrow> nat \<Rightarrow> nat \<Rightarrow> bool option" where
  "poIncomparable po u v =
     (if \<not> u < po_dim po then None
      else if \<not> v < po_dim po then None
      else let cmp = po_data po ! (u * po_dim po + v) in Some (cmp = PO_INCOMPARABLE))"

definition poComparable :: "partial_order_t \<Rightarrow> nat \<Rightarrow> nat \<Rightarrow> bool option" where
  "poComparable po u v =
     (if \<not> u < po_dim po then None
      else if \<not> v < po_dim po then None
      else let cmp = po_data po ! (u * po_dim po + v) in Some (cmp \<noteq> PO_INCOMPARABLE))"

function poIsMin_loop :: "partial_order_t \<Rightarrow> nat \<Rightarrow> nat \<Rightarrow> bool option" where
  "poIsMin_loop po u i =
     (if i < po_dim po
      then (case poGet po u i of
              None \<Rightarrow> None
            | Some r \<Rightarrow> if r = PO_GT then Some False else poIsMin_loop po u (i + 1))
      else Some True)"
  by pat_completeness auto
termination
  by (relation "measure (\<lambda>(po, u, i). po_dim po - i)") auto

declare poIsMin_loop.simps [simp del]

definition poIsMin :: "partial_order_t \<Rightarrow> nat \<Rightarrow> bool option" where
  "poIsMin po u = poIsMin_loop po u 0"

text \<open>A counting loop \<^verbatim>\<open>for (x = lo; x < hi; x++) body\<close> whose body leaves \<open>x\<close> and \<open>hi\<close>
  alone; it stops with \<open>None\<close> when the body fails an assertion.\<close>

function for_loop :: "nat \<Rightarrow> nat \<Rightarrow> (nat \<Rightarrow> 's \<Rightarrow> 's option) \<Rightarrow> 's \<Rightarrow> 's option" where
  "for_loop lo hi body s =
     (if lo < hi
      then (case body lo s of None \<Rightarrow> None | Some s' \<Rightarrow> for_loop (lo + 1) hi body s')
      else Some s)"
  by pat_completeness auto
termination
  by (relation "measure (\<lambda>(lo, hi, body, s). hi - lo)") auto

declare for_loop.simps [simp del]

text \<open>The body of the innermost loop of \<^verbatim>\<open>poClosure\<close>.\<close>

definition poClosure_body :: "nat \<Rightarrow> nat \<Rightarrow> nat \<Rightarrow> partial_order_t \<Rightarrow> partial_order_t option" where
  "poClosure_body k i j po =
     do {
       inc \<leftarrow> poIncomparable po i j;
       if inc then do {
         a \<leftarrow> poGet po i k;
         b \<leftarrow> poGet po k j;
         if a = b then do {
           rel \<leftarrow> poGet po i k;
           poSetOrder po i j rel
         } else Some po
       } else Some po
     }"

definition poClosure :: "partial_order_t \<Rightarrow> partial_order_t option" where
  "poClosure po =
     (let n = po_dim po
      in for_loop 0 n (\<lambda>k. for_loop 0 n (\<lambda>i. for_loop 0 n (\<lambda>j. poClosure_body k i j))) po)"

subsection \<open>Hill climbing (lines 443--584)\<close>

text \<open>
  Modelled from the spec: the status codes \<^verbatim>\<open>RC_ERR_*\<close>, \<^verbatim>\<open>evaluation_func_t\<close> and
  \<^verbatim>\<open>hc_state_t\<close> are declared in \<^verbatim>\<open>rcomb.h\<close>, which is not among the sources.
  \<open>RC_ERR_NONE\<close> is the zero status (the code writes \<^verbatim>\<open>err = 0\<close> and tests \<^verbatim>\<open>if(err)\<close>);
  \<open>RC_ERR_OTHER e\<close> stands for every other non-zero status an oracle can return. The
  evaluation callback \<^verbatim>\<open>evf(context, perm, &score)\<close> is a function of the context and the
  permutation that returns the status, the score and the context as the call left it.
\<close>

datatype rc_err = RC_ERR_NONE | RC_ERR_NODATA | RC_ERR_COMPLETE | RC_ERR_OTHER int

type_synonym 'c evaluation_func_t = "'c \<Rightarrow> permutation_t \<Rightarrow> rc_err \<times> int \<times> 'c"

record hc_state_t =
  hc_best_seq :: permutation_t
  hc_next_seq :: permutation_t
  hc_n :: nat
  hc_i :: nat
  hc_j :: nat
  hc_improved :: bool

definition hill_climb_init :: "permutation_t \<Rightarrow> hc_state_t" where
  "hill_climb_init start =
     \<lparr>hc_best_seq = pmDup start,
      hc_next_seq = pmNew (pmLength start),
      hc_n = pmLength start,
      hc_i = 0,
      hc_j = 1,
      hc_improved = True\<rparr>"

text \<open>The loop \<^verbatim>\<open>for(i=u+1; i<v; i++)\<close> of \<^verbatim>\<open>check_valid_swap\<close>.\<close>

function check_valid_swap_loop ::
  "partial_order_t \<Rightarrow> permutation_t \<Rightarrow> nat \<Rightarrow> nat \<Rightarrow> nat \<Rightarrow> bool option" where
  "check_valid_swap_loop po perm u v i =
     (if i < v
      then (case pmElt perm u of None \<Rightarrow> None | Some pu \<Rightarrow>
            case pmElt perm i of None \<Rightarrow> None | Some pi \<Rightarrow>
            case poComparable po pu pi of None \<Rightarrow> None | Some c1 \<Rightarrow>
              if c1 then Some False
              else (case pmElt perm v of None \<Rightarrow> None | Some pv \<Rightarrow>
                    case poComparable po pi pv of None \<Rightarrow> None | Some c2 \<Rightarrow>
                      if c2 then Some False
                      else check_valid_swap_loop po perm u v (i + 1)))
      else Some True)"
  by pat_completeness auto
termination
  by (relation "measure (\<lambda>(po, perm, u, v, i). v - i)") auto

declare check_valid_swap_loop.simps [simp del]

definition check_valid_swap ::
  "partial_order_t \<Rightarrow> permutation_t \<Rightarrow> nat \<Rightarrow> nat \<Rightarrow> bool option" where
  "check_valid_swap po perm u v =
     (case pmElt perm u of None \<Rightarrow> None | Some pu \<Rightarrow>
      case pmElt perm v of None \<Rightarrow> None | Some pv \<Rightarrow>
      case poComparable po pu pv of None \<Rightarrow> None | Some c \<Rightarrow>
        if c then Some False else check_valid_swap_loop po perm u (v) (u + 1))"

text \<open>
  The body of the inner loop \<^verbatim>\<open>while(i < n-1)\<close> of \<^verbatim>\<open>hill_climb_step\<close>, up to the cursor
  update: check the swap, evaluate the swapped candidate, keep it when its score is strictly
  better, swap back. A non-zero status of the oracle is returned at once (\<^verbatim>\<open>goto done\<close>),
  with \<open>next_seq\<close> still swapped.
\<close>

definition hill_climb_try ::
  "partial_order_t \<Rightarrow> 'c evaluation_func_t \<Rightarrow> nat \<Rightarrow> nat \<Rightarrow> hc_state_t \<Rightarrow> int \<Rightarrow> 'c
     \<Rightarrow> (rc_err \<times> hc_state_t \<times> int \<times> 'c) option" where
  "hill_climb_try po evf i j hc best_score context =
     (case check_valid_swap po (hc_next_seq hc) i j of
        None \<Rightarrow> None
      | Some valid_swap \<Rightarrow>
          if valid_swap
          then (let hc1 = hc\<lparr>hc_next_seq := pmSwap (hc_next_seq hc) i j\<rparr>
                in case evf context (hc_next_seq hc1) of
                     (err, next_score, context') \<Rightarrow>
                       if err \<noteq> RC_ERR_NONE
                       then Some (err, hc1, best_score, context')
                       else (case (if next_score > best_score
                                   then (case pmCopy (hc_best_seq hc1) (hc_next_seq hc1) of
                                           None \<Rightarrow> None
                                         | Some b \<Rightarrow>
                                             Some (hc1\<lparr>hc_improved := True, hc_best_seq := b\<rparr>,
                                                   next_score))
                                   else Some (hc1, best_score)) of
                               None \<Rightarrow> None
                             | Some (hc2, best_score') \<Rightarrow>
                                 Some (RC_ERR_NONE,
                                       hc2\<lparr>hc_next_seq := pmSwap (hc_next_seq hc2) i j\<rparr>,
                                       best_score', context')))
          else Some (RC_ERR_NONE, hc, best_score, context))"

text \<open>
  The inner loop (\<open>i + 1 < n\<close> on natural numbers for \<^verbatim>\<open>i < n-1\<close>). It returns the status, the
  cursor \<open>(i, j)\<close> where it stopped, the state, the best score and the oracle's context.
\<close>

function hill_climb_pass ::
  "partial_order_t \<Rightarrow> 'c evaluation_func_t \<Rightarrow> nat \<Rightarrow> nat \<Rightarrow> nat \<Rightarrow> hc_state_t \<Rightarrow> int \<Rightarrow> 'c
     \<Rightarrow> (rc_err \<times> nat \<times> nat \<times> hc_state_t \<times> int \<times> 'c) option" where
  "hill_climb_pass po evf n i j hc best_score context =
     (if i + 1 < n
      then (case hill_climb_try po evf i j hc best_score context of
              None \<Rightarrow> None
            | Some (err, hc', best_score', context') \<Rightarrow>
                if err \<noteq> RC_ERR_NONE
                then Some (err, i, j, hc', best_score', context')
                else if j + 1 \<ge> n
                     then hill_climb_pass po evf n (i + 1) (i + 1 + 1) hc' best_score' context'
                     else hill_climb_pass po evf n i (j + 1) hc' best_score' context')
      else Some (RC_ERR_NONE, i, j, hc, best_score, context))"
  by pat_completeness auto
termination
  by (relation "measures [\<lambda>(po, evf, n, i, j, hc, b, c). n - i, \<lambda>(po, evf, n, i, j, hc, b, c). n - j]")
     auto

declare hill_climb_pass.simps [simp del]

text \<open>
  One round of the outer loop \<^verbatim>\<open>while(!err && hc->improved)\<close>: copy, run the pass from the
  saved cursor, then either leave through \<^verbatim>\<open>done\<close> (non-zero status: the cursor is saved) or
  reset the cursor and clear \<^verbatim>\<open>hc->improved\<close>.
\<close>

definition hill_climb_round ::
  "partial_order_t \<Rightarrow> 'c evaluation_func_t \<Rightarrow> hc_state_t \<Rightarrow> int \<Rightarrow> 'c
     \<Rightarrow> (rc_err \<times> hc_state_t \<times> int \<times> 'c) option" where
  "hill_climb_round po evf hc best_score context =
     (case pmCopy (hc_next_seq hc) (hc_best_seq hc) of
        None \<Rightarrow> None
      | Some nx \<Rightarrow>
          (case hill_climb_pass po evf (hc_n hc) (hc_i hc) (hc_j hc) (hc\<lparr>hc_next_seq := nx\<rparr>)
                  best_score context of
             None \<Rightarrow> None
           | Some (err, i, j, hc1, best_score', context') \<Rightarrow>
               if err \<noteq> RC_ERR_NONE
               then Some (err, hc1\<lparr>hc_i := i, hc_j := j\<rparr>, best_score', context')
               else Some (RC_ERR_NONE, hc1\<lparr>hc_improved := False, hc_i := 0, hc_j := 1\<rparr>,
                          best_score', context')))"

lemma hill_climb_round_stops:
  assumes "hill_climb_round po evf hc best_score ctx = Some (err', hc', best_score', ctx')"
  shows "err' \<noteq> RC_ERR_NONE \<or> \<not> hc_improved hc'"
proof -
  from assms obtain nx where nx: "pmCopy (hc_next_seq hc) (hc_best_seq hc) = Some nx"
    unfolding hill_climb_round_def by (cases "pmCopy (hc_next_seq hc) (hc_best_seq hc)") auto
  let ?r = "hill_climb_pass po evf (hc_n hc) (hc_i hc) (hc_j hc) (hc\<lparr>hc_next_seq := nx\<rparr>) best_score ctx"
  from assms nx obtain err i j hc1 b c where r: "?r = Some (err, i, j, hc1, b, c)"
    unfolding hill_climb_round_def by (cases ?r) auto
  show ?thesis
  proof (cases "err \<noteq> RC_ERR_NONE")
    case True
    then have "err' = err" using assms by (simp add: hill_climb_round_def nx r)
    then show ?thesis using True by simp
  next
    case False
    then have "hc' = hc1\<lparr>hc_improved := False, hc_i := 0, hc_j := 1\<rparr>"
      using assms by (simp add: hill_climb_round_def nx r)
    then show ?thesis by simp
  qed
qed

function hill_climb_while ::
  "partial_order_t \<Rightarrow> 'c evaluation_func_t \<Rightarrow> rc_err \<Rightarrow> hc_state_t \<Rightarrow> int \<Rightarrow> 'c
     \<Rightarrow> (rc_err \<times> hc_state_t \<times> int \<times> 'c) option" where
  "hill_climb_while po evf err hc best_score context =
     (if err = RC_ERR_NONE \<and> hc_improved hc
      then (case hill_climb_round po evf hc best_score context of
              None \<Rightarrow> None
            | Some (err', hc', best_score', context') \<Rightarrow>
                hill_climb_while po evf err' hc' best_score' context')
      else Some (err, hc, best_score, context))"
  by pat_completeness auto
termination
  by (relation "measure (\<lambda>(po, evf, err, hc, b, c). if err = RC_ERR_NONE \<and> hc_improved hc then 1 else 0)")
     (auto dest: hill_climb_round_stops)

declare hill_climb_while.simps [simp del]

definition hill_climb_step ::
  "hc_state_t \<Rightarrow> partial_order_t \<Rightarrow> 'c evaluation_func_t \<Rightarrow> 'c \<Rightarrow> (rc_err \<times> hc_state_t \<times> 'c) option" where
  "hill_climb_step hc po evf context =
     (case evf context (hc_best_seq hc) of
        (err, best_score, context1) \<Rightarrow>
          (case (if err \<noteq> RC_ERR_NONE
                 then (case pmCopy (hc_next_seq hc) (hc_best_seq hc) of
                         None \<Rightarrow> None
                       | Some nx \<Rightarrow> Some (RC_ERR_NODATA, hc\<lparr>hc_next_seq := nx\<rparr>))
                 else Some (err, hc)) of
             None \<Rightarrow> None
           | Some (err1, hc1) \<Rightarrow>
               (case hill_climb_while po evf err1 hc1 best_score context1 of
                  None \<Rightarrow> None
                | Some (err2, hc2, best_score', context2) \<Rightarrow>
                    Some (if err2 = RC_ERR_NONE \<and> hc_improved hc2 = False then RC_ERR_COMPLETE else err2,
                          hc2, context2))))"

definition hill_climb_result :: "hc_state_t \<Rightarrow> permutation_t" where
  "hill_climb_result hc = hc_best_seq hc"

definition hill_climb_next :: "hc_state_t \<Rightarrow> permutation_t" where
  "hill_climb_next hc = hc_next_seq hc"

subsection \<open>Best-first search (lines 586--781)\<close>

datatype bfs_state = RC_BFS_INIT | RC_BFS_VISIT | RC_BFS_EXPAND | RC_BFS_DONE

text \<open>
  \<^verbatim>\<open>bf_state_t\<close> (declared in \<^verbatim>\<open>rcomb.h\<close>; its fields are read off their uses). The priority
  queue holds pointers to permutations that nothing else refers to, so the model stores the
  permutations themselves. The oracle works on \<open>bf_evcontext\<close>, which the model updates after
  every call.
\<close>

record 'c bf_state_t =
  bf_n :: nat
  bf_i :: nat
  bf_j :: nat
  bf_improved :: bool
  bf_pq :: "permutation_t heap_t"
  bf_po :: partial_order_t
  bf_best_seq :: permutation_t
  bf_next_seq :: permutation_t
  bf_evfunc :: "'c evaluation_func_t"
  bf_evcontext :: 'c
  bf_state :: bfs_state

text \<open>\<open>junk\<close> is the unspecified content of the queue's buffer after \<^verbatim>\<open>malloc\<close>.\<close>

definition best_first_init ::
  "permutation_t heap_elt_t \<Rightarrow> nat \<Rightarrow> partial_order_t \<Rightarrow> 'c evaluation_func_t \<Rightarrow> 'c \<Rightarrow> 'c bf_state_t" where
  "best_first_init junk n po evf context =
     \<lparr>bf_n = n, bf_i = 0, bf_j = 0, bf_improved = True,
      bf_pq = heap_new junk (n * n),
      bf_po = po,
      bf_best_seq = pmNew n,
      bf_next_seq = pmNew n,
      bf_evfunc = evf,
      bf_evcontext = context,
      bf_state = RC_BFS_INIT\<rparr>"

text \<open>The two loops of \<^verbatim>\<open>is_valid_partial_perm\<close>: \<open>j\<close> from \<open>i + 1\<close> below \<open>n\<close>, \<open>i\<close> below the length.\<close>

function is_valid_inner ::
  "partial_order_t \<Rightarrow> permutation_t \<Rightarrow> nat \<Rightarrow> nat \<Rightarrow> nat \<Rightarrow> bool option" where
  "is_valid_inner po perm n i j =
     (if j < n
      then (case pmElt perm i of None \<Rightarrow> None | Some a \<Rightarrow>
            case pmElt perm j of None \<Rightarrow> None | Some b \<Rightarrow>
            case poGet po a b of None \<Rightarrow> None | Some r \<Rightarrow>
              if r = PO_GT then Some False else is_valid_inner po perm n i (j + 1))
      else Some True)"
  by pat_completeness auto
termination
  by (relation "measure (\<lambda>(po, perm, n, i, j). n - j)") auto

declare is_valid_inner.simps [simp del]

function is_valid_outer ::
  "partial_order_t \<Rightarrow> permutation_t \<Rightarrow> nat \<Rightarrow> nat \<Rightarrow> bool option" where
  "is_valid_outer po perm n i =
     (if i < pmLength perm
      then (case is_valid_inner po perm n i (i + 1) of
              None \<Rightarrow> None
            | Some ok \<Rightarrow> if ok then is_valid_outer po perm n (i + 1) else Some False)
      else Some True)"
  by pat_completeness auto
termination
  by (relation "measure (\<lambda>(po, perm, n, i). pmLength perm - i)") auto

declare is_valid_outer.simps [simp del]

definition is_valid_partial_perm :: "partial_order_t \<Rightarrow> permutation_t \<Rightarrow> nat \<Rightarrow> bool option" where
  "is_valid_partial_perm po perm n = is_valid_outer po perm n 0"

text \<open>
  \<^verbatim>\<open>make_valid_perm\<close>: the inner loop carries the permutation and \<open>v1\<close>; the final assertion
  checks the permutation with the length it has then, which is still \<open>start\<close>.
\<close>

definition make_valid_inner ::
  "partial_order_t \<Rightarrow> nat \<Rightarrow> nat \<Rightarrow> permutation_t \<times> nat \<Rightarrow> (permutation_t \<times> nat) option" where
  "make_valid_inner po n i =
     for_loop (i + 1) n
       (\<lambda>j (perm, v1).
          case pmElt perm j of None \<Rightarrow> None | Some v2 \<Rightarrow>
          case poGet po v1 v2 of None \<Rightarrow> None | Some r \<Rightarrow>
            if r = PO_GT then Some (pmSwap perm i j, v2) else Some (perm, v1))"

definition make_valid_perm :: "partial_order_t \<Rightarrow> permutation_t \<Rightarrow> nat \<Rightarrow> permutation_t option" where
  "make_valid_perm po perm n =
     (let start = pmLength perm
      in case for_loop start n
                (\<lambda>i perm.
                   case pmElt perm i of None \<Rightarrow> None | Some v1 \<Rightarrow>
                   case make_valid_inner po n i (perm, v1) of
                     None \<Rightarrow> None
                   | Some (perm', v1') \<Rightarrow> Some perm')
                perm of
           None \<Rightarrow> None
         | Some perm' \<Rightarrow>
             (case is_valid_partial_perm po perm' n of
                None \<Rightarrow> None
              | Some ok \<Rightarrow> if ok then Some perm' else None))"

text \<open>
  \<^verbatim>\<open>RC_BFS_INIT\<close>, one candidate: build the permutation that starts with \<open>bf_i\<close>, evaluate it;
  on a non-zero status repair \<open>next_seq\<close> and return \<^verbatim>\<open>RC_ERR_NODATA\<close>, else insert it.
\<close>

definition best_first_init_try :: "nat \<Rightarrow> 'c bf_state_t \<Rightarrow> (rc_err \<times> 'c bf_state_t) option" where
  "best_first_init_try n bf =
     (let perm = pmNew n;
          perm = pmIdentity perm;
          perm = pmSwap perm 0 (bf_i bf)
      in case pmSetSize perm 1 of
           None \<Rightarrow> None
         | Some perm \<Rightarrow>
             (case bf_evfunc bf (bf_evcontext bf) perm of
                (err, next_score, context') \<Rightarrow>
                  if err \<noteq> RC_ERR_NONE
                  then (case pmCopyAll (bf_next_seq bf) perm of None \<Rightarrow> None | Some nx \<Rightarrow>
                        case make_valid_perm (bf_po bf) nx n of None \<Rightarrow> None | Some nx \<Rightarrow>
                        case pmSetSize nx n of None \<Rightarrow> None | Some nx \<Rightarrow>
                          Some (RC_ERR_NODATA, bf\<lparr>bf_next_seq := nx, bf_evcontext := context'\<rparr>))
                  else (case heap_insert (bf_pq bf) next_score perm of
                          None \<Rightarrow> None
                        | Some pq \<Rightarrow> Some (RC_ERR_NONE, bf\<lparr>bf_pq := pq, bf_evcontext := context'\<rparr>))))"

lemma best_first_init_try_frame:
  assumes "best_first_init_try n bf = Some (err, bf')"
  shows "bf_i bf' = bf_i bf"
  using assms unfolding best_first_init_try_def Let_def
  by (auto split: option.splits prod.splits if_splits)

function best_first_init_loop :: "nat \<Rightarrow> 'c bf_state_t \<Rightarrow> (rc_err \<times> 'c bf_state_t) option" where
  "best_first_init_loop n bf =
     (if bf_i bf < n
      then (case poIsMin (bf_po bf) (bf_i bf) of
              None \<Rightarrow> None
            | Some is_min \<Rightarrow>
                if is_min
                then (case best_first_init_try n bf of
                        None \<Rightarrow> None
                      | Some (err, bf') \<Rightarrow>
                          if err \<noteq> RC_ERR_NONE then Some (err, bf')
                          else best_first_init_loop n (bf'\<lparr>bf_i := bf_i bf' + 1\<rparr>))
                else best_first_init_loop n (bf\<lparr>bf_i := bf_i bf + 1\<rparr>))
      else Some (RC_ERR_NONE, bf\<lparr>bf_state := RC_BFS_VISIT\<rparr>))"
  by pat_completeness auto
termination
  by (relation "measure (\<lambda>(n, bf). n - bf_i bf)") (auto dest: best_first_init_try_frame)

declare best_first_init_loop.simps [simp del]

text \<open>\<^verbatim>\<open>RC_BFS_EXPAND\<close>, one child: the candidate that puts position \<open>bf_j\<close> next.\<close>

definition best_first_expand_try :: "nat \<Rightarrow> 'c bf_state_t \<Rightarrow> (rc_err \<times> 'c bf_state_t) option" where
  "best_first_expand_try n bf =
     (let pos = pmSize (bf_best_seq bf)
      in case pmCopyAll (bf_next_seq bf) (bf_best_seq bf) of None \<Rightarrow> None | Some nx \<Rightarrow>
         case pmSetSize (pmSwap nx pos (bf_j bf)) (pos + 1) of None \<Rightarrow> None | Some nx \<Rightarrow>
         case is_valid_partial_perm (bf_po bf) nx n of None \<Rightarrow> None | Some valid \<Rightarrow>
           if valid
           then (case bf_evfunc bf (bf_evcontext bf) nx of
                   (err, score, context') \<Rightarrow>
                     if err \<noteq> RC_ERR_NONE
                     then (case make_valid_perm (bf_po bf) nx n of None \<Rightarrow> None | Some nx \<Rightarrow>
                           case pmSetSize nx n of None \<Rightarrow> None | Some nx \<Rightarrow>
                             Some (RC_ERR_NODATA, bf\<lparr>bf_next_seq := nx, bf_evcontext := context'\<rparr>))
                     else (case heap_insert (bf_pq bf) score (pmDup nx) of
                             None \<Rightarrow> None
                           | Some pq \<Rightarrow>
                               Some (RC_ERR_NONE,
                                     bf\<lparr>bf_next_seq := nx, bf_pq := pq, bf_evcontext := context'\<rparr>)))
           else Some (RC_ERR_NONE, bf\<lparr>bf_next_seq := nx\<rparr>))"

lemma best_first_expand_try_frame:
  assumes "best_first_expand_try n bf = Some (err, bf')"
  shows "bf_j bf' = bf_j bf"
  using assms unfolding best_first_expand_try_def Let_def
  by (auto split: option.splits prod.splits if_splits)

function best_first_expand_loop :: "nat \<Rightarrow> 'c bf_state_t \<Rightarrow> (rc_err \<times> 'c bf_state_t) option" where
  "best_first_expand_loop n bf =
     (if bf_j bf < n
      then (case best_first_expand_try n bf of
              None \<Rightarrow> None
            | Some (err, bf') \<Rightarrow>
                if err \<noteq> RC_ERR_NONE then Some (err, bf')
                else best_first_expand_loop n (bf'\<lparr>bf_j := bf_j bf' + 1\<rparr>))
      else Some (RC_ERR_NONE, bf\<lparr>bf_state := RC_BFS_VISIT\<rparr>))"
  by pat_completeness auto
termination
  by (relation "measure (\<lambda>(n, bf). n - bf_j bf)") (auto dest: best_first_expand_try_frame)

declare best_first_expand_loop.simps [simp del]

lemma heapify_size: "heap_size (heapify heap i) = heap_size heap"
proof (induction heap i rule: heapify.induct)
  case (1 heap i)
  show ?case
    by (subst heapify.simps) (auto simp: Let_def 1 simp del: heapify.simps)
qed

text \<open>\<^verbatim>\<open>RC_BFS_DONE\<close>: drain the queue (the extracted permutations are freed).\<close>

function best_first_drain :: "permutation_t heap_t \<Rightarrow> permutation_t heap_t option" where
  "best_first_drain pq =
     (if heap_size pq \<noteq> 0
      then (case heap_extract_max pq of
              None \<Rightarrow> None
            | Some (perm, pq') \<Rightarrow> best_first_drain pq')
      else Some pq)"
  by pat_completeness auto
termination
  by (relation "measure heap_size")
     (auto simp: heap_extract_max_def Let_def heapify_size split: if_splits)

declare best_first_drain.simps [simp del]

definition best_first_visit :: "nat \<Rightarrow> 'c bf_state_t \<Rightarrow> (rc_err \<times> 'c bf_state_t) option" where
  "best_first_visit n bf =
     (if heap_size (bf_pq bf) = 0
      then (if pmLength (bf_best_seq bf) = bf_n bf then Some (RC_ERR_COMPLETE, bf) else None)
      else (case heap_extract_max (bf_pq bf) of
              None \<Rightarrow> None
            | Some (perm, pq) \<Rightarrow>
                (case pmCopyAll (bf_best_seq bf) perm of
                   None \<Rightarrow> None
                 | Some best \<Rightarrow>
                     (let bf = bf\<lparr>bf_pq := pq, bf_best_seq := best\<rparr>
                      in if pmLength (bf_best_seq bf) = bf_n bf
                         then Some (RC_ERR_COMPLETE, bf\<lparr>bf_state := RC_BFS_DONE\<rparr>)
                         else Some (RC_ERR_NONE,
                                    bf\<lparr>bf_state := RC_BFS_EXPAND, bf_j := pmSize (bf_best_seq bf)\<rparr>)))))"

definition best_first_step :: "'c bf_state_t \<Rightarrow> (rc_err \<times> 'c bf_state_t) option" where
  "best_first_step bf =
     (let n = bf_n bf
      in case bf_state bf of
           RC_BFS_INIT \<Rightarrow> best_first_init_loop n bf
         | RC_BFS_VISIT \<Rightarrow> best_first_visit n bf
         | RC_BFS_EXPAND \<Rightarrow> best_first_expand_loop n bf
         | RC_BFS_DONE \<Rightarrow>
             (case best_first_drain (bf_pq bf) of
                None \<Rightarrow> None
              | Some pq \<Rightarrow> Some (RC_ERR_NONE, bf\<lparr>bf_pq := pq, bf_state := RC_BFS_INIT\<rparr>)))"

definition best_first_result :: "'c bf_state_t \<Rightarrow> permutation_t" where
  "best_first_result bf = bf_best_seq bf"

definition best_first_next :: "'c bf_state_t \<Rightarrow> permutation_t" where
  "best_first_next bf = bf_next_seq bf"

subsection \<open>Partial orders: test harness and specification predicates\<close>

text \<open>A sequence of \<^verbatim>\<open>poSetOrder\<close> calls, in order.\<close>

fun poSetOrders :: "partial_order_t \<Rightarrow> (nat \<times> nat \<times> po_relation_t) list \<Rightarrow> partial_order_t option" where
  "poSetOrders po [] = Some po"
| "poSetOrders po ((u, v, rel) # rest) =
     (case poSetOrder po u v rel of None \<Rightarrow> None | Some po' \<Rightarrow> poSetOrders po' rest)"

text \<open>The chain \<open>0 < 1 < 2\<close> and the chain \<open>0 = 1 = 2\<close> on three elements, before closure
  (the matrices that \<open>poSetOrders (poNew 3) [(0, 1, r), (1, 2, r)]\<close> builds).\<close>

definition po_chain3 :: partial_order_t where
  "po_chain3 = \<lparr>po_dim = 3, po_data =
         [PO_INCOMPARABLE, PO_LT, PO_INCOMPARABLE,
          PO_GT, PO_INCOMPARABLE, PO_LT,
          PO_INCOMPARABLE, PO_GT, PO_INCOMPARABLE]\<rparr>"

definition po_eq3 :: partial_order_t where
  "po_eq3 = \<lparr>po_dim = 3, po_data =
         [PO_INCOMPARABLE, PO_EQ, PO_INCOMPARABLE,
          PO_EQ, PO_INCOMPARABLE, PO_EQ,
          PO_INCOMPARABLE, PO_EQ, PO_INCOMPARABLE]\<rparr>"

text \<open>
  \<open>po_rel\<close> reads the matrix entry without the bounds assertions; \<open>po_wf\<close> says the buffer has
  \<open>dim * dim\<close> entries, as \<^verbatim>\<open>poNew\<close> allocates it. \<open>po_mirror\<close> is the spec's mirror
  invariant \<open>M[v][u] = inverse(M[u][v])\<close>. \<open>po_consistent f\<close> says that the relations agree
  with the ranking \<open>f\<close> of the elements: the matrix describes an order without cycles.
\<close>

definition po_rel :: "partial_order_t \<Rightarrow> nat \<Rightarrow> nat \<Rightarrow> po_relation_t" where
  "po_rel po u v = po_data po ! (u * po_dim po + v)"

definition po_wf :: "partial_order_t \<Rightarrow> bool" where
  "po_wf po = (length (po_data po) = po_dim po * po_dim po)"

definition po_mirror :: "partial_order_t \<Rightarrow> bool" where
  "po_mirror po =
     (\<forall>u \<in> {0..<po_dim po}. \<forall>v \<in> {0..<po_dim po}. po_rel po v u = poInverse (po_rel po u v))"

definition po_consistent :: "(nat \<Rightarrow> nat) \<Rightarrow> partial_order_t \<Rightarrow> bool" where
  "po_consistent f po =
     (\<forall>u \<in> {0..<po_dim po}. \<forall>v \<in> {0..<po_dim po}.
        (po_rel po u v = PO_LT \<longrightarrow> f u < f v) \<and>
        (po_rel po u v = PO_GT \<longrightarrow> f v < f u) \<and>
        (po_rel po u v = PO_EQ \<longrightarrow> f u = f v))"

text \<open>
  The vocabulary of the closure proof, on matrices as functions restricted to indices below
  \<open>n\<close>: \<open>closure_fires\<close> is the guard of the innermost statement of \<^verbatim>\<open>poClosure\<close>, \<open>stepF\<close> its
  effect, \<open>monoF P M\<close> says that \<open>M\<close> keeps every comparable entry of \<open>P\<close>, \<open>closedF n K\<close> that
  \<open>M\<close> is closed under bridging through the elements below \<open>K\<close>; \<open>fromF\<close> and \<open>doneF\<close> describe
  one iteration of the outer loop (which entries are new, which pairs are already handled).
\<close>

definition closure_fires :: "partial_order_t \<Rightarrow> nat \<Rightarrow> nat \<Rightarrow> nat \<Rightarrow> bool" where
  "closure_fires po k i j = (po_rel po i j = PO_INCOMPARABLE \<and> po_rel po i k = po_rel po k j)"

definition mirrorF :: "nat \<Rightarrow> (nat \<Rightarrow> nat \<Rightarrow> po_relation_t) \<Rightarrow> bool" where
  "mirrorF n M = (\<forall>u<n. \<forall>v<n. M v u = poInverse (M u v))"

definition consF :: "nat \<Rightarrow> (nat \<Rightarrow> nat) \<Rightarrow> (nat \<Rightarrow> nat \<Rightarrow> po_relation_t) \<Rightarrow> bool" where
  "consF n f M = (\<forall>u<n. \<forall>v<n. (M u v = PO_LT \<longrightarrow> f u < f v) \<and> (M u v = PO_GT \<longrightarrow> f v < f u)
       \<and> (M u v = PO_EQ \<longrightarrow> f u = f v))"

definition monoF :: "nat \<Rightarrow> (nat \<Rightarrow> nat \<Rightarrow> po_relation_t) \<Rightarrow> (nat \<Rightarrow> nat \<Rightarrow> po_relation_t) \<Rightarrow> bool" where
  "monoF n P M = (\<forall>u<n. \<forall>v<n. P u v \<noteq> PO_INCOMPARABLE \<longrightarrow> M u v = P u v)"

definition stepF :: "nat \<Rightarrow> nat \<Rightarrow> nat \<Rightarrow> nat \<Rightarrow> (nat \<Rightarrow> nat \<Rightarrow> po_relation_t) \<Rightarrow> (nat \<Rightarrow> nat \<Rightarrow> po_relation_t) \<Rightarrow> bool" where
  "stepF n k i j M M' =
     (\<forall>a<n. \<forall>b<n. M' a b =
        (if (M i j = PO_INCOMPARABLE \<and> M i k = M k j) \<and> a = j \<and> b = i then poInverse (M i k)
         else if (M i j = PO_INCOMPARABLE \<and> M i k = M k j) \<and> a = i \<and> b = j then M i k
         else M a b))"

definition fromF :: "nat \<Rightarrow> nat \<Rightarrow> (nat \<Rightarrow> nat \<Rightarrow> po_relation_t) \<Rightarrow> (nat \<Rightarrow> nat \<Rightarrow> po_relation_t) \<Rightarrow> bool" where
  "fromF n k P M = (\<forall>u<n. \<forall>v<n. M u v \<noteq> P u v \<longrightarrow> P u k = M u v \<and> P k v = M u v)"

definition doneF :: "nat \<Rightarrow> nat \<Rightarrow> nat \<Rightarrow> (nat \<Rightarrow> nat \<Rightarrow> po_relation_t) \<Rightarrow> (nat \<Rightarrow> nat \<Rightarrow> po_relation_t) \<Rightarrow> bool" where
  "doneF n k p P M = (\<forall>u<n. \<forall>v<n. u * n + v < p \<longrightarrow> P u k = P k v \<longrightarrow> P u k \<noteq> PO_INCOMPARABLE
       \<longrightarrow> M u v = P u k)"

definition closedF :: "nat \<Rightarrow> nat \<Rightarrow> (nat \<Rightarrow> nat \<Rightarrow> po_relation_t) \<Rightarrow> bool" where
  "closedF n K M = (\<forall>a<K. \<forall>u<n. \<forall>v<n. M u a = M a v \<longrightarrow> M u a \<noteq> PO_INCOMPARABLE
       \<longrightarrow> M u v = M u a)"

definition iter_inv :: "nat \<Rightarrow> (nat \<Rightarrow> nat) \<Rightarrow> nat \<Rightarrow> partial_order_t \<Rightarrow> nat \<Rightarrow> partial_order_t \<Rightarrow> bool" where
  "iter_inv n f k P p t =
     (po_wf t \<and> po_dim t = n \<and> mirrorF n (po_rel t) \<and> consF n f (po_rel t) \<and>
      monoF n (po_rel P) (po_rel t) \<and> fromF n k (po_rel P) (po_rel t) \<and>
      doneF n k p (po_rel P) (po_rel t))"

definition outer_inv :: "nat \<Rightarrow> (nat \<Rightarrow> nat) \<Rightarrow> partial_order_t \<Rightarrow> nat \<Rightarrow> partial_order_t \<Rightarrow> bool" where
  "outer_inv n f po k t =
     (po_wf t \<and> po_dim t = n \<and> mirrorF n (po_rel t) \<and> consF n f (po_rel t) \<and>
      monoF n (po_rel po) (po_rel t) \<and> closedF n k (po_rel t))"

definition fill_inv :: "nat \<Rightarrow> partial_order_t \<Rightarrow> nat \<Rightarrow> nat \<Rightarrow> nat \<Rightarrow> nat \<Rightarrow> partial_order_t \<Rightarrow> bool" where
  "fill_inv n po p0 i0 j0 p t =
     (po_wf t \<and> po_dim t = n \<and> mirrorF n (po_rel t) \<and> monoF n (po_rel po) (po_rel t) \<and>
      (p0 < p \<longrightarrow> po_rel t i0 j0 \<noteq> PO_INCOMPARABLE))"


subsection \<open>Search drivers: test harness\<close>

text \<open>
  Oracles of the scenarios: the score \<open>-sum(i * perm[i])\<close> with status OK; an oracle that
  always fails with a status that is neither OK nor NODATA; an oracle that accepts the identity
  permutation only. \<open>hc_start4\<close> is the hill climber started on \<open>[0,1,2,3]\<close>.
\<close>

definition neg_weighted_sum :: "unit evaluation_func_t" where
  "neg_weighted_sum c perm =
     (RC_ERR_NONE, - (\<Sum>i \<leftarrow> [0..<pm_size perm]. int i * int (elements perm ! i)), c)"



definition bf_junk :: "permutation_t heap_elt_t" where
  "bf_junk = \<lparr>key = 0, val = pmNew 0\<rparr>"



subsection \<open>Best-first search: specification predicates\<close>

text \<open>
  A queue is well formed when its size is within its capacity and its buffer has
  \<open>capacity + 1\<close> slots (slot 0 is unused); \<open>heap_all P\<close> says that every stored value
  satisfies \<open>P\<close>. \<open>rel_ok po a b\<close>: both indices are in range and \<^verbatim>\<open>poGet(po, a, b)\<close> is not
  \<^verbatim>\<open>PO_GT\<close>. \<open>valid_partial po perm n\<close> is what \<^verbatim>\<open>is_valid_partial_perm\<close> checks: no position
  \<open>i\<close> below the length and \<open>j\<close> in \<open>(i, n)\<close> with \<^verbatim>\<open>poGet(po, perm[i], perm[j]) == PO_GT\<close>.
  \<open>bf_inv\<close> is the invariant of the best-first driver between two steps, and \<open>bf_keeps\<close> what a
  step leaves unchanged. \<open>bf_start3\<close> is the driver started on the chain \<open>0 < 1 < 2\<close>.
\<close>

definition heap_wf :: "'v heap_t \<Rightarrow> bool" where
  "heap_wf heap = (heap_size heap \<le> heap_capacity heap \<and>
                   length (heap_data heap) = heap_capacity heap + 1)"

definition heap_all :: "('v \<Rightarrow> bool) \<Rightarrow> 'v heap_t \<Rightarrow> bool" where
  "heap_all P heap = (\<forall>k \<in> {1..heap_size heap}. P (val (heap_data heap ! k)))"

definition pm_wf :: "permutation_t \<Rightarrow> bool" where
  "pm_wf perm = (length (elements perm) = pm_capacity perm)"

definition rel_ok :: "partial_order_t \<Rightarrow> nat \<Rightarrow> nat \<Rightarrow> bool" where
  "rel_ok po a b = (case poGet po a b of None \<Rightarrow> False | Some r \<Rightarrow> r \<noteq> PO_GT)"

definition valid_partial :: "partial_order_t \<Rightarrow> permutation_t \<Rightarrow> nat \<Rightarrow> bool" where
  "valid_partial po perm n =
     (\<forall>i \<in> {0..<pm_size perm}. \<forall>j \<in> {i + 1..<n}.
        rel_ok po (elements perm ! i) (elements perm ! j))"

definition pq_entry_ok :: "partial_order_t \<Rightarrow> nat \<Rightarrow> permutation_t \<Rightarrow> bool" where
  "pq_entry_ok po n p = (valid_partial po p n \<and> pm_capacity p = n)"

definition bf_inv :: "'c bf_state_t \<Rightarrow> bool" where
  "bf_inv bf =
     (heap_wf (bf_pq bf) \<and> bf_n bf \<le> po_dim (bf_po bf) \<and>
      pm_capacity (bf_next_seq bf) = bf_n bf \<and> pm_wf (bf_next_seq bf) \<and>
      heap_all (pq_entry_ok (bf_po bf) (bf_n bf)) (bf_pq bf))"

definition pm_same_shape :: "permutation_t \<Rightarrow> permutation_t \<Rightarrow> bool" where
  "pm_same_shape p q =
     (pm_capacity q = pm_capacity p \<and> pm_size q = pm_size p \<and>
      length (elements q) = length (elements p))"

definition bf_keeps :: "'c bf_state_t \<Rightarrow> 'c bf_state_t \<Rightarrow> bool" where
  "bf_keeps bf bf' =
     (bf_inv bf' \<and> bf_n bf' = bf_n bf \<and> bf_po bf' = bf_po bf \<and>
      heap_capacity (bf_pq bf') = heap_capacity (bf_pq bf))"

definition bf_start3 :: "unit bf_state_t" where
  "bf_start3 = best_first_init bf_junk 3 po_chain3 neg_weighted_sum ()"

section \<open>Properties\<close>

subsection \<open>The heap\<close>

text \<open>
  Claim C2 (heap extraction order). The claim expects the values 9, 6, 5, 4, 3, 2, 1, 1
  from eight \<^verbatim>\<open>heap_extract_max\<close> calls after inserting the keys 3, 1, 4, 1, 5, 9, 2, 6
  (value = key). The code returns 9, 6, 4, 3, 2, 1, 5, 1: \<^verbatim>\<open>heapify\<close> never moves the
  right child up (its second test compares \<^verbatim>\<open>data[i].key\<close> with \<^verbatim>\<open>data[largest].key\<close>), so
  after the second extraction the key 5 sits below the root 4.
\<close>

theorem heap_extraction_order_actual:
  "map_option fst (heap_run (heap_new junk 8)
       (map (\<lambda>k. Insert k k) [3, 1, 4, 1, 5, 9, 2, 6] @ replicate 8 Extract_max))
     = Some [9, 6, 4, 3, 2, 1, 5, 1]"
  by code_simp

text \<open>
  Claim C3 (heap root invariant). The claim says that after every insert and extract-max
  the root key is at least every other key of the heap. In the code, inserting the keys
  5, 4, 3 and extracting once leaves a heap of size 2 with root key 3 and key 4 at index 2:
  \<^verbatim>\<open>heapify\<close> looks at the left child only when \<^verbatim>\<open>l < heap->size\<close>, so the last slot of
  the heap is never compared with its parent.
\<close>

theorem heap_root_not_max_after_extract:
  "heap_run (heap_new junk 3) [Insert 5 5, Insert 4 4, Insert 3 3, Extract_max]
     = Some ([5::int],
         \<lparr>heap_size = 2, heap_capacity = 3,
            heap_data = [junk, \<lparr>key = 3, val = 3\<rparr>, \<lparr>key = 4, val = 4\<rparr>, \<lparr>key = 3, val = 3\<rparr>]\<rparr>)"
  by code_simp

subsection \<open>The closure of a partial order\<close>

lemma for_loop_rule:
  assumes "lo \<le> hi" and "I lo s"
    and "\<And>x t. lo \<le> x \<Longrightarrow> x < hi \<Longrightarrow> I x t \<Longrightarrow> \<exists>t'. body x t = Some t' \<and> I (Suc x) t'"
  shows "\<exists>s'. for_loop lo hi body s = Some s' \<and> I hi s'"
  using assms
proof (induction lo hi body s rule: for_loop.induct)
  case (1 lo hi body s)
  show ?case
  proof (cases "lo < hi")
    case True
    from 1(4)[of lo s] True 1(3) obtain t' where t': "body lo s = Some t'" "I (Suc lo) t'" by auto
    have "\<exists>s'. for_loop (lo + 1) hi body t' = Some s' \<and> I hi s'"
      using 1(1)[OF True t'(1)] True t'(2) 1(4) by auto
    then show ?thesis using True t'(1) by (subst for_loop.simps) simp
  next
    case False
    then show ?thesis using 1(2,3) by (subst for_loop.simps) simp
  qed
qed

lemma idx_lt: "u < n \<Longrightarrow> v < n \<Longrightarrow> u * n + v < n * (n::nat)"
proof -
  assume a: "u < n" "v < n"
  then have "u * n + v < u * n + n" by simp
  also have "\<dots> = (Suc u) * n" by simp
  also have "\<dots> \<le> n * n" using a(1) by (metis Suc_leI mult.commute mult_le_mono2)
  finally show ?thesis .
qed

lemma idx_inj: "v < n \<Longrightarrow> v' < n \<Longrightarrow> (u * n + v = u' * n + v') = (u = u' \<and> v = (v'::nat))"
  by (metis add.commute add_diff_cancel_left' div_mult_self3 div_less less_nat_zero_code mod_mult_self3 mod_less add_cancel_right_left mult.commute nat_neq_iff)

lemma poGet_rel: "u < po_dim po \<Longrightarrow> v < po_dim po \<Longrightarrow> poGet po u v = Some (po_rel po u v)"
  by (simp add: poGet_def po_rel_def)

lemma poIncomparable_rel:
  "u < po_dim po \<Longrightarrow> v < po_dim po \<Longrightarrow> poIncomparable po u v = Some (po_rel po u v = PO_INCOMPARABLE)"
  by (simp add: poIncomparable_def po_rel_def)

lemma poSetOrder_effect:
  assumes "po_wf po" "u < po_dim po" "v < po_dim po"
  shows "\<exists>po'. poSetOrder po u v r = Some po' \<and> po_wf po' \<and> po_dim po' = po_dim po \<and>
           (\<forall>a<po_dim po. \<forall>b<po_dim po. po_rel po' a b =
              (if a = v \<and> b = u then poInverse r else if a = u \<and> b = v then r else po_rel po a b))"
proof -
  let ?n = "po_dim po"
  let ?po' = "po\<lparr>po_data := ((po_data po)[u * ?n + v := r])[v * ?n + u := poInverse r]\<rparr>"
  have s: "poSetOrder po u v r = Some ?po'"
    using assms by (simp add: poSetOrder_def Let_def)
  have len: "length (po_data po) = ?n * ?n" using assms(1) by (simp add: po_wf_def)
  have "po_rel ?po' a b =
      (if a = v \<and> b = u then poInverse r else if a = u \<and> b = v then r else po_rel po a b)"
    if "a < ?n" "b < ?n" for a b
    using that assms(2,3) len idx_lt[of a ?n b] idx_lt[of u ?n v] idx_lt[of v ?n u]
    by (auto simp: po_rel_def nth_list_update idx_inj)
  moreover have "po_wf ?po'" "po_dim ?po' = ?n" using len by (simp_all add: po_wf_def)
  ultimately show ?thesis using s by blast
qed

lemma poClosure_body_fires:
  assumes "k < po_dim po" "i < po_dim po" "j < po_dim po" "closure_fires po k i j"
  shows "poClosure_body k i j po = poSetOrder po i j (po_rel po i k)"
proof -
  have g: "poIncomparable po i j = Some (po_rel po i j = PO_INCOMPARABLE)"
    "poGet po i k = Some (po_rel po i k)" "poGet po k j = Some (po_rel po k j)"
    using assms by (simp_all add: poGet_rel poIncomparable_rel)
  from assms(4) have a: "po_rel po i j = PO_INCOMPARABLE" and b: "po_rel po k j = po_rel po i k"
    by (simp_all add: closure_fires_def)
  show ?thesis
    unfolding poClosure_body_def g by (simp add: a b)
qed

lemma poClosure_body_idle:
  assumes "k < po_dim po" "i < po_dim po" "j < po_dim po" "\<not> closure_fires po k i j"
  shows "poClosure_body k i j po = Some po"
proof -
  have g: "poIncomparable po i j = Some (po_rel po i j = PO_INCOMPARABLE)"
    "poGet po i k = Some (po_rel po i k)" "poGet po k j = Some (po_rel po k j)"
    using assms by (simp_all add: poGet_rel poIncomparable_rel)
  show ?thesis
    unfolding poClosure_body_def g using assms(4) by (simp add: closure_fires_def)
qed

lemma poClosure_body_effect:
  assumes "po_wf po" "k < po_dim po" "i < po_dim po" "j < po_dim po"
  shows "\<exists>po'. poClosure_body k i j po = Some po' \<and> po_wf po' \<and> po_dim po' = po_dim po \<and>
           (\<forall>a<po_dim po. \<forall>b<po_dim po. po_rel po' a b =
              (if closure_fires po k i j \<and> a = j \<and> b = i then poInverse (po_rel po i k)
               else if closure_fires po k i j \<and> a = i \<and> b = j then po_rel po i k
               else po_rel po a b))"
proof (cases "closure_fires po k i j")
  case True
  from poSetOrder_effect[OF assms(1,3,4), of "po_rel po i k"]
  obtain po' where p: "poSetOrder po i j (po_rel po i k) = Some po'" "po_wf po'"
      "po_dim po' = po_dim po"
      "\<forall>a<po_dim po. \<forall>b<po_dim po. po_rel po' a b =
         (if a = j \<and> b = i then poInverse (po_rel po i k)
          else if a = i \<and> b = j then po_rel po i k else po_rel po a b)"
    by blast
  have "poClosure_body k i j po = Some po'"
    using poClosure_body_fires[OF assms(2-4) True] p(1) by simp
  moreover have "\<forall>a<po_dim po. \<forall>b<po_dim po. po_rel po' a b =
              (if closure_fires po k i j \<and> a = j \<and> b = i then poInverse (po_rel po i k)
               else if closure_fires po k i j \<and> a = i \<and> b = j then po_rel po i k
               else po_rel po a b)"
    using p(4) True by simp
  ultimately show ?thesis using p(2,3) by blast
next
  case False
  have "poClosure_body k i j po = Some po"
    by (rule poClosure_body_idle[OF assms(2-4) False])
  moreover have "\<forall>a<po_dim po. \<forall>b<po_dim po. po_rel po a b =
              (if closure_fires po k i j \<and> a = j \<and> b = i then poInverse (po_rel po i k)
               else if closure_fires po k i j \<and> a = i \<and> b = j then po_rel po i k
               else po_rel po a b)"
    using False by simp
  ultimately show ?thesis using assms(1) by blast
qed

lemma double_loop_rule:
  assumes "I 0 s"
    and "\<And>i j t. i < n \<Longrightarrow> j < n \<Longrightarrow> I (i * n + j) t \<Longrightarrow> \<exists>t'. body i j t = Some t' \<and> I (Suc (i * n + j)) t'"
  shows "\<exists>s'. for_loop 0 n (\<lambda>i. for_loop 0 n (\<lambda>j. body i j)) s = Some s' \<and> I (n * n) s'"
proof -
  have inner: "\<exists>t'. for_loop 0 n (\<lambda>j. body i j) t = Some t' \<and> I (Suc i * n) t'"
    if "i < n" "I (i * n) t" for i t
  proof -
    have "\<exists>t'. for_loop 0 n (\<lambda>j. body i j) t = Some t' \<and> I (i * n + n) t'"
      by (rule for_loop_rule[where I = "\<lambda>j. I (i * n + j)"]) (use that assms(2) in auto)
    then show ?thesis by (simp add: add.commute)
  qed
  have "\<exists>s'. for_loop 0 n (\<lambda>i. for_loop 0 n (\<lambda>j. body i j)) s = Some s' \<and> I (n * n) s'"
    by (rule for_loop_rule[where I = "\<lambda>i. I (i * n)"]) (use assms(1) inner in auto)
  then show ?thesis .
qed

lemma poInverse_invol [simp]: "poInverse (poInverse r) = r"
  by (cases r) auto

lemma poInverse_INC [simp]: "(poInverse r = PO_INCOMPARABLE) = (r = PO_INCOMPARABLE)"
  by (cases r) auto

lemma stepF_fire:
  assumes "stepF n k i j M M'" "mirrorF n M" "k < n" "i < n" "j < n"
    "M i j = PO_INCOMPARABLE" "M i k = M k j"
  shows "M' i j = M i k" "M' j i = poInverse (M i k)"
proof -
  have e: "\<And>a b. a < n \<Longrightarrow> b < n \<Longrightarrow> M' a b =
        (if a = j \<and> b = i then poInverse (M i k) else if a = i \<and> b = j then M i k else M a b)"
    using assms(1,6,7) unfolding stepF_def by metis
  show ji: "M' j i = poInverse (M i k)"
    using e[OF assms(5,4)] by simp
  show "M' i j = M i k"
  proof (cases "i = j")
    case True
    have "M k i = poInverse (M i k)" using assms(2-4) unfolding mirrorF_def by blast
    then show ?thesis using ji True assms(7) by metis
  next
    case False
    then show ?thesis using e[OF assms(4,5)] by simp
  qed
qed

lemma stepF_changed:
  assumes "stepF n k i j M M'" "mirrorF n M" "k < n" "i < n" "j < n" "a < n" "b < n"
    "M' a b \<noteq> M a b"
  shows "M i j = PO_INCOMPARABLE \<and> M i k = M k j \<and> M a b = PO_INCOMPARABLE \<and>
         ((a = i \<and> b = j \<and> M' a b = M i k) \<or> (a = j \<and> b = i \<and> M' a b = poInverse (M i k)))"
proof -
  have e: "M' a b =
        (if (M i j = PO_INCOMPARABLE \<and> M i k = M k j) \<and> a = j \<and> b = i then poInverse (M i k)
         else if (M i j = PO_INCOMPARABLE \<and> M i k = M k j) \<and> a = i \<and> b = j then M i k
         else M a b)"
    using assms(1,6,7) unfolding stepF_def by blast
  have fire1: "M i j = PO_INCOMPARABLE" and fire2: "M i k = M k j"
    using e assms(8) by (metis (full_types))+
  have pos: "(a = i \<and> b = j) \<or> (a = j \<and> b = i)"
    using e assms(8) by (metis (full_types))
  have "M j i = poInverse (M i j)"
    using assms(2,4,5) unfolding mirrorF_def by blast
  then have mji: "M j i = PO_INCOMPARABLE"
    unfolding fire1 by simp
  have f1: "M' i j = M i k" and f2: "M' j i = poInverse (M i k)"
    using stepF_fire[OF assms(1-5) fire1 fire2] by blast+
  from pos show ?thesis
  proof
    assume h: "a = i \<and> b = j"
    then have "M a b = PO_INCOMPARABLE" "M' a b = M i k" using fire1 f1 by blast+
    then show ?thesis using fire1 fire2 h by blast
  next
    assume h: "a = j \<and> b = i"
    then have "M a b = PO_INCOMPARABLE" "M' a b = poInverse (M i k)" using mji f2 by blast+
    then show ?thesis using fire1 fire2 h by blast
  qed
qed

lemma stepF_unchanged:
  assumes "stepF n k i j M M'" "mirrorF n M" "k < n" "i < n" "j < n" "a < n" "b < n"
    "M a b \<noteq> PO_INCOMPARABLE"
  shows "M' a b = M a b"
  using stepF_changed[OF assms(1-7)] assms(8) by blast

lemma stepF_mirror:
  assumes "stepF n k i j M M'" "mirrorF n M" "k < n" "i < n" "j < n"
  shows "mirrorF n M'"
  unfolding mirrorF_def
proof (intro allI impI)
  fix u v assume uv: "u < n" "v < n"
  have m: "M v u = poInverse (M u v)" using assms(2) uv unfolding mirrorF_def by blast
  note ch = stepF_changed[OF assms]
  show "M' v u = poInverse (M' u v)"
  proof (cases "M' u v = M u v \<and> M' v u = M v u")
    case True
    then show ?thesis using m by metis
  next
    case False
    then have "M' u v \<noteq> M u v \<or> M' v u \<noteq> M v u" by blast
    then have fire: "M i j = PO_INCOMPARABLE" "M i k = M k j"
      and pos: "(u = i \<and> v = j) \<or> (u = j \<and> v = i)"
      using ch[OF uv] ch[OF uv(2,1)] by blast+
    have f1: "M' i j = M i k" and f2: "M' j i = poInverse (M i k)"
      using stepF_fire[OF assms fire] by blast+
    from pos show ?thesis
    proof
      assume "u = i \<and> v = j"
      then show ?thesis using f1 f2 by metis
    next
      assume "u = j \<and> v = i"
      then show ?thesis using f1 f2 poInverse_invol by metis
    qed
  qed
qed

lemma consF_chain:
  assumes "consF n f M" "i < n" "k < n" "j < n" "M i k = M k j" "M i k \<noteq> PO_INCOMPARABLE"
    "consF n f M'" "M' i j \<noteq> PO_INCOMPARABLE"
  shows "M' i j = M i k"
proof -
  have c: "\<And>a b. a < n \<Longrightarrow> b < n \<Longrightarrow> (M a b = PO_LT \<longrightarrow> f a < f b) \<and> (M a b = PO_GT \<longrightarrow> f b < f a)
       \<and> (M a b = PO_EQ \<longrightarrow> f a = f b)"
    using assms(1) unfolding consF_def by blast
  have c': "(M' i j = PO_LT \<longrightarrow> f i < f j) \<and> (M' i j = PO_GT \<longrightarrow> f j < f i)
       \<and> (M' i j = PO_EQ \<longrightarrow> f i = f j)"
    using assms(7,2,4) unfolding consF_def by blast
  obtain r where r: "M i k = r" "M k j = r" using assms(5) by metis
  have cik: "(r = PO_LT \<longrightarrow> f i < f k) \<and> (r = PO_GT \<longrightarrow> f k < f i) \<and> (r = PO_EQ \<longrightarrow> f i = f k)"
    using c[OF assms(2,3)] unfolding r by blast
  have ckj: "(r = PO_LT \<longrightarrow> f k < f j) \<and> (r = PO_GT \<longrightarrow> f j < f k) \<and> (r = PO_EQ \<longrightarrow> f k = f j)"
    using c[OF assms(3,4)] unfolding r by blast
  have rn: "r \<noteq> PO_INCOMPARABLE" using assms(6) unfolding r .
  have "M' i j = r"
    using cik ckj c' rn assms(8) by (cases r; cases "M' i j") auto
  then show ?thesis unfolding r .
qed

lemma stepF_cons:
  assumes "stepF n k i j M M'" "mirrorF n M" "k < n" "i < n" "j < n" "consF n f M"
  shows "consF n f M'"
  unfolding consF_def
proof (intro allI impI)
  fix u v assume uv: "u < n" "v < n"
  have c: "\<And>a b. a < n \<Longrightarrow> b < n \<Longrightarrow> (M a b = PO_LT \<longrightarrow> f a < f b) \<and> (M a b = PO_GT \<longrightarrow> f b < f a)
       \<and> (M a b = PO_EQ \<longrightarrow> f a = f b)"
    using assms(6) unfolding consF_def by blast
  show "(M' u v = PO_LT \<longrightarrow> f u < f v) \<and> (M' u v = PO_GT \<longrightarrow> f v < f u) \<and> (M' u v = PO_EQ \<longrightarrow> f u = f v)"
  proof (cases "M' u v = M u v")
    case True
    show ?thesis using c[OF uv] unfolding True .
  next
    case False
    note ch = stepF_changed[OF assms(1-5) uv False]
    obtain r where r: "M i k = r" "M k j = r" using ch by metis
    have cik: "(r = PO_LT \<longrightarrow> f i < f k) \<and> (r = PO_GT \<longrightarrow> f k < f i) \<and> (r = PO_EQ \<longrightarrow> f i = f k)"
      using c[OF assms(4,3)] unfolding r by blast
    have ckj: "(r = PO_LT \<longrightarrow> f k < f j) \<and> (r = PO_GT \<longrightarrow> f j < f k) \<and> (r = PO_EQ \<longrightarrow> f k = f j)"
      using c[OF assms(3,5)] unfolding r by blast
    from ch have "(u = i \<and> v = j \<and> M' u v = r) \<or> (u = j \<and> v = i \<and> M' u v = poInverse r)"
      unfolding r by blast
    then show ?thesis
    proof
      assume h: "u = i \<and> v = j \<and> M' u v = r"
      then have "M' u v = r" "u = i" "v = j" by blast+
      then show ?thesis using cik ckj by (cases r) auto
    next
      assume h: "u = j \<and> v = i \<and> M' u v = poInverse r"
      then have "M' u v = poInverse r" "u = j" "v = i" by blast+
      then show ?thesis using cik ckj by (cases r) auto
    qed
  qed
qed

lemma stepF_mono:
  assumes "stepF n k i j M M'" "mirrorF n M" "k < n" "i < n" "j < n" "monoF n P M"
  shows "monoF n P M'"
  unfolding monoF_def
proof (intro allI impI)
  fix u v assume uv: "u < n" "v < n" and p: "P u v \<noteq> PO_INCOMPARABLE"
  have "M u v = P u v" using assms(6) uv p unfolding monoF_def by blast
  moreover have "M' u v = M u v"
    using stepF_unchanged[OF assms(1-5) uv] p calculation by metis
  ultimately show "M' u v = P u v" by metis
qed

lemma fromF_rowcol:
  assumes "fromF n k P M" "k < n" "u < n"
  shows "M u k = P u k" "M k u = P k u"
proof -
  show "M u k = P u k"
    using assms unfolding fromF_def by metis
  show "M k u = P k u"
    using assms unfolding fromF_def by metis
qed

lemma stepF_from:
  assumes "stepF n k i j M M'" "mirrorF n M" "k < n" "i < n" "j < n"
    "mirrorF n P" "fromF n k P M"
  shows "fromF n k P M'"
  unfolding fromF_def
proof (intro allI impI)
  fix u v assume uv: "u < n" "v < n" and d: "M' u v \<noteq> P u v"
  show "P u k = M' u v \<and> P k v = M' u v"
  proof (cases "M' u v = M u v")
    case True
    have "M u v \<noteq> P u v" using d unfolding True .
    then have "P u k = M u v \<and> P k v = M u v"
      using assms(7) uv unfolding fromF_def by blast
    then show ?thesis unfolding True .
  next
    case False
    note ch = stepF_changed[OF assms(1-5) uv False]
    obtain r where r: "M i k = r" "M k j = r" using ch by metis
    have pik: "P i k = r" using fromF_rowcol(1)[OF assms(7,3,4)] r(1) by metis
    have pkj: "P k j = r" using fromF_rowcol(2)[OF assms(7,3,5)] r(2) by metis
    have pjk: "P j k = poInverse r"
      using assms(6,3,5) pkj unfolding mirrorF_def by metis
    have pki: "P k i = poInverse r"
      using assms(6,3,4) pik unfolding mirrorF_def by metis
    from ch have "(u = i \<and> v = j \<and> M' u v = r) \<or> (u = j \<and> v = i \<and> M' u v = poInverse r)"
      unfolding r by blast
    then show ?thesis using pik pkj pjk pki by metis
  qed
qed

lemma stepF_done:
  assumes "stepF n k i j M M'" "mirrorF n M" "k < n" "i < n" "j < n"
    "fromF n k P M" "consF n f M" "doneF n k (i * n + j) P M"
  shows "doneF n k (Suc (i * n + j)) P M'"
  unfolding doneF_def
proof (intro allI impI)
  fix u v assume uv: "u < n" "v < n" and lt: "u * n + v < Suc (i * n + j)"
    and e: "P u k = P k v" and ne: "P u k \<noteq> PO_INCOMPARABLE"
  show "M' u v = P u k"
  proof (cases "u * n + v < i * n + j")
    case True
    then have m: "M u v = P u k"
      using assms(8) uv e ne unfolding doneF_def by blast
    then have "M u v \<noteq> PO_INCOMPARABLE" using ne by metis
    then have "M' u v = M u v" by (rule stepF_unchanged[OF assms(1-5) uv])
    then show ?thesis using m by metis
  next
    case False
    then have "u * n + v = i * n + j" using lt by simp
    then have ui: "u = i" and vj: "v = j" using idx_inj[OF uv(2) assms(5)] by blast+
    have mik: "M i k = P i k" by (rule fromF_rowcol(1)[OF assms(6,3,4)])
    have mkj: "M k j = P k j" by (rule fromF_rowcol(2)[OF assms(6,3,5)])
    have eq: "M i k = M k j" using mik mkj e ui vj by metis
    have nn: "M i k \<noteq> PO_INCOMPARABLE" using mik ne ui by metis
    have "M' i j = M i k"
    proof (cases "M i j = PO_INCOMPARABLE")
      case True
      show ?thesis by (rule stepF_fire(1)[OF assms(1-5) True eq])
    next
      case False
      have "M' i j = M i j" by (rule stepF_unchanged[OF assms(1-5) assms(4,5) False])
      moreover have "M i j = M i k"
        by (rule consF_chain[OF assms(7,4,3,5) eq nn assms(7) False])
      ultimately show ?thesis by metis
    qed
    then show ?thesis using mik ui vj by metis
  qed
qed

lemma iteration_closed:
  assumes "k < n" "closedF n k P" "monoF n P M" "fromF n k P M" "doneF n k (n * n) P M"
  shows "closedF n (Suc k) M"
  unfolding closedF_def
proof (intro allI impI)
  fix a u v assume a: "a < Suc k" and uv: "u < n" "v < n"
    and e: "M u a = M a v" and ne: "M u a \<noteq> PO_INCOMPARABLE"
  have an: "a < n" using a assms(1) by simp
  obtain r where r: "M u a = r" "M a v = r" "r \<noteq> PO_INCOMPARABLE" using e ne by metis
  have via_k: "M u v = r" if "P u k = r" "P k v = r"
  proof -
    have "u * n + v < n * n" using idx_lt[OF uv] .
    then have "M u v = P u k"
      using assms(5) uv that r(3) unfolding doneF_def by metis
    then show ?thesis using that by metis
  qed
  have closedP: "P x y = r" if "x < n" "y < n" "b < k" "P x b = r" "P b y = r" for x y b
    using assms(2) that r(3) unfolding closedF_def by metis
  show "M u v = M u a"
  proof (cases "a = k")
    case True
    have "P u k = r" using fromF_rowcol(1)[OF assms(4,1) uv(1)] r(1) True by metis
    moreover have "P k v = r" using fromF_rowcol(2)[OF assms(4,1) uv(2)] r(2) True by metis
    ultimately show ?thesis using via_k r(1) by metis
  next
    case False
    then have ak: "a < k" using a by simp
    have ua: "M u a \<noteq> P u a \<Longrightarrow> P u k = r \<and> P k a = r"
      using assms(4) uv(1) an r(1) unfolding fromF_def by metis
    have av: "M a v \<noteq> P a v \<Longrightarrow> P a k = r \<and> P k v = r"
      using assms(4) uv(2) an r(2) unfolding fromF_def by metis
    have "M u v = r"
    proof (cases "M u a = P u a")
      case True
      then have pua: "P u a = r" using r(1) by metis
      show ?thesis
      proof (cases "M a v = P a v")
        case True
        then have "P a v = r" using r(2) by metis
        then have "P u v = r" using closedP[OF uv ak pua] by blast
        then show ?thesis using assms(3) uv r(3) unfolding monoF_def by metis
      next
        case False
        then have h: "P a k = r" "P k v = r" using av by blast+
        have "P u k = r" using closedP[OF uv(1) assms(1) ak pua h(1)] .
        then show ?thesis using via_k h(2) by blast
      qed
    next
      case False
      then have h: "P u k = r" "P k a = r" using ua by blast+
      show ?thesis
      proof (cases "M a v = P a v")
        case True
        then have "P a v = r" using r(2) by metis
        then have "P k v = r" using closedP[OF assms(1) uv(2) ak h(2)] by blast
        then show ?thesis using via_k h(1) by blast
      next
        case False
        then have "P k v = r" using av by blast
        then show ?thesis using via_k h(1) by blast
      qed
    qed
    then show ?thesis using r(1) by metis
  qed
qed

lemma po_mirror_F: "po_mirror po = mirrorF (po_dim po) (po_rel po)"
  unfolding po_mirror_def mirrorF_def by (simp add: Ball_def)

lemma po_consistent_F: "po_consistent f po = consF (po_dim po) f (po_rel po)"
  unfolding po_consistent_def consF_def by (simp add: Ball_def)

lemma poClosure_body_stepF:
  assumes "po_wf t" "po_dim t = n" "k < n" "i < n" "j < n"
  shows "\<exists>t'. poClosure_body k i j t = Some t' \<and> po_wf t' \<and> po_dim t' = n \<and>
           stepF n k i j (po_rel t) (po_rel t')"
proof -
  have b: "k < po_dim t" "i < po_dim t" "j < po_dim t" using assms by simp_all
  from poClosure_body_effect[OF assms(1) b]
  obtain t' where t': "poClosure_body k i j t = Some t'" "po_wf t'" "po_dim t' = po_dim t"
    "\<forall>a<po_dim t. \<forall>b<po_dim t. po_rel t' a b =
              (if closure_fires t k i j \<and> a = j \<and> b = i then poInverse (po_rel t i k)
               else if closure_fires t k i j \<and> a = i \<and> b = j then po_rel t i k
               else po_rel t a b)"
    by blast
  have "stepF n k i j (po_rel t) (po_rel t')"
    using t'(4) unfolding stepF_def closure_fires_def assms(2) .
  then show ?thesis using t'(1,2,3) assms(2) by metis
qed

lemma monoF_refl: "monoF n P P"
  by (simp add: monoF_def)

lemma monoF_trans: "monoF n P M \<Longrightarrow> monoF n M M' \<Longrightarrow> monoF n P M'"
  unfolding monoF_def by metis

lemma iter_inv_step:
  assumes "iter_inv n f k P (i * n + j) t" "mirrorF n (po_rel P)" "k < n" "i < n" "j < n"
  shows "\<exists>t'. poClosure_body k i j t = Some t' \<and> iter_inv n f k P (Suc (i * n + j)) t'"
proof -
  have a: "po_wf t" "po_dim t = n" "mirrorF n (po_rel t)" "consF n f (po_rel t)"
    "monoF n (po_rel P) (po_rel t)" "fromF n k (po_rel P) (po_rel t)"
    "doneF n k (i * n + j) (po_rel P) (po_rel t)"
    using assms(1) unfolding iter_inv_def by blast+
  from poClosure_body_stepF[OF a(1,2) assms(3-5)]
  obtain t' where t': "poClosure_body k i j t = Some t'" "po_wf t'" "po_dim t' = n"
    "stepF n k i j (po_rel t) (po_rel t')" by blast
  note st = t'(4) a(3) assms(3-5)
  have "mirrorF n (po_rel t')" by (rule stepF_mirror[OF st])
  moreover have "consF n f (po_rel t')" by (rule stepF_cons[OF st a(4)])
  moreover have "monoF n (po_rel P) (po_rel t')" by (rule stepF_mono[OF st a(5)])
  moreover have "fromF n k (po_rel P) (po_rel t')" by (rule stepF_from[OF st assms(2) a(6)])
  moreover have "doneF n k (Suc (i * n + j)) (po_rel P) (po_rel t')"
    by (rule stepF_done[OF st a(6) a(4) a(7)])
  ultimately have "iter_inv n f k P (Suc (i * n + j)) t'"
    unfolding iter_inv_def using t'(2,3) by blast
  then show ?thesis using t'(1) by blast
qed

lemma closure_iteration:
  assumes "po_wf P" "po_dim P = n" "k < n" "mirrorF n (po_rel P)" "consF n f (po_rel P)"
  shows "\<exists>t. for_loop 0 n (\<lambda>i. for_loop 0 n (\<lambda>j. poClosure_body k i j)) P = Some t \<and>
             iter_inv n f k P (n * n) t"
proof (rule double_loop_rule)
  show "iter_inv n f k P 0 P"
    unfolding iter_inv_def using assms by (simp add: monoF_refl fromF_def doneF_def)
next
  fix i j t assume "i < n" "j < n" "iter_inv n f k P (i * n + j) t"
  then show "\<exists>t'. poClosure_body k i j t = Some t' \<and> iter_inv n f k P (Suc (i * n + j)) t'"
    using iter_inv_step[OF _ assms(4,3)] by blast
qed

lemma outer_inv_step:
  assumes "outer_inv n f po k P" "k < n"
  shows "\<exists>t. for_loop 0 n (\<lambda>i. for_loop 0 n (\<lambda>j. poClosure_body k i j)) P = Some t \<and>
             outer_inv n f po (Suc k) t"
proof -
  have a: "po_wf P" "po_dim P = n" "mirrorF n (po_rel P)" "consF n f (po_rel P)"
    "monoF n (po_rel po) (po_rel P)" "closedF n k (po_rel P)"
    using assms(1) unfolding outer_inv_def by blast+
  from closure_iteration[OF a(1,2) assms(2) a(3,4)]
  obtain t where t: "for_loop 0 n (\<lambda>i. for_loop 0 n (\<lambda>j. poClosure_body k i j)) P = Some t"
    "iter_inv n f k P (n * n) t" by blast
  have b: "po_wf t" "po_dim t = n" "mirrorF n (po_rel t)" "consF n f (po_rel t)"
    "monoF n (po_rel P) (po_rel t)" "fromF n k (po_rel P) (po_rel t)"
    "doneF n k (n * n) (po_rel P) (po_rel t)"
    using t(2) unfolding iter_inv_def by blast+
  have "closedF n (Suc k) (po_rel t)"
    by (rule iteration_closed[OF assms(2) a(6) b(5,6,7)])
  moreover have "monoF n (po_rel po) (po_rel t)" by (rule monoF_trans[OF a(5) b(5)])
  ultimately have "outer_inv n f po (Suc k) t"
    unfolding outer_inv_def using b(1-4) by blast
  then show ?thesis using t(1) by blast
qed

lemma poClosure_closed:
  assumes "po_wf po" "po_mirror po" "po_consistent f po"
  shows "\<exists>po'. poClosure po = Some po' \<and> outer_inv (po_dim po) f po (po_dim po) po'"
proof -
  let ?n = "po_dim po"
  have i0: "outer_inv ?n f po 0 po"
    unfolding outer_inv_def using assms
    by (simp add: po_mirror_F po_consistent_F monoF_refl closedF_def)
  have "\<exists>s'. for_loop 0 ?n (\<lambda>k. for_loop 0 ?n (\<lambda>i. for_loop 0 ?n (\<lambda>j. poClosure_body k i j))) po = Some s'
       \<and> outer_inv ?n f po ?n s'"
    by (rule for_loop_rule[where I = "outer_inv ?n f po"]) (use i0 outer_inv_step in auto)
  then show ?thesis by (simp add: poClosure_def Let_def)
qed

lemma poGet_SomeD:
  assumes "poGet po u v = Some r"
  shows "u < po_dim po" "v < po_dim po" "po_rel po u v = r"
  using assms by (auto simp: poGet_def po_rel_def split: if_splits)

text \<open>
  Claim C5 (transitive closure of the strict relation), as amended. The claim holds for a
  matrix with the mirror invariant whose relations are consistent with a ranking of the
  elements: \<^verbatim>\<open>poClosure\<close> returns, and in its result \<open>get(u, w) = LT\<close> and \<open>get(w, v) = LT\<close>
  give \<open>get(u, v) = LT\<close>, and likewise for \<open>GT\<close>.
\<close>

theorem poClosure_transitive:
  assumes "po_wf po" "po_mirror po" "po_consistent f po"
  shows "\<exists>po'. poClosure po = Some po' \<and>
           (\<forall>u v w. poGet po' u w = Some PO_LT \<and> poGet po' w v = Some PO_LT
               \<longrightarrow> poGet po' u v = Some PO_LT) \<and>
           (\<forall>u v w. poGet po' u w = Some PO_GT \<and> poGet po' w v = Some PO_GT
               \<longrightarrow> poGet po' u v = Some PO_GT)"
proof -
  let ?n = "po_dim po"
  from poClosure_closed[OF assms]
  obtain po' where p: "poClosure po = Some po'" "outer_inv ?n f po ?n po'" by blast
  have d: "po_dim po' = ?n" and c: "closedF ?n ?n (po_rel po')"
    using p(2) unfolding outer_inv_def by blast+
  have tr: "poGet po' u v = Some r"
    if "poGet po' u w = Some r" "poGet po' w v = Some r" "r \<noteq> PO_INCOMPARABLE" for u v w r
  proof -
    note a = poGet_SomeD[OF that(1)] and b = poGet_SomeD[OF that(2)]
    have "po_rel po' u v = po_rel po' u w"
      using c a b that(3) unfolding closedF_def d by metis
    then have "po_rel po' u v = r" using a(3) by metis
    then show ?thesis using poGet_rel[OF a(1) b(2)] by metis
  qed
  have "\<forall>u v w. poGet po' u w = Some PO_LT \<and> poGet po' w v = Some PO_LT
               \<longrightarrow> poGet po' u v = Some PO_LT"
    using tr[of _ _ PO_LT] by blast
  moreover have "\<forall>u v w. poGet po' u w = Some PO_GT \<and> poGet po' w v = Some PO_GT
               \<longrightarrow> poGet po' u v = Some PO_GT"
    using tr[of _ _ PO_GT] by blast
  ultimately show ?thesis using p(1) by blast
qed

lemma po_chain3_hyps:
  "po_wf po_chain3" "po_mirror po_chain3" "po_consistent (\<lambda>x. x) po_chain3"
  by code_simp+

theorem poClosure_transitive_witness:
  "po_wf po_chain3 \<and> po_mirror po_chain3 \<and> po_consistent (\<lambda>x. x) po_chain3 \<and>
   (\<exists>po'. poClosure po_chain3 = Some po' \<and> poGet po' 0 1 = Some PO_LT \<and>
       poGet po' 1 2 = Some PO_LT \<and> poGet po' 0 2 = Some PO_LT)"
proof -
  from poClosure_transitive[OF po_chain3_hyps]
  obtain po' where p: "poClosure po_chain3 = Some po'"
    "\<forall>u v w. poGet po' u w = Some PO_LT \<and> poGet po' w v = Some PO_LT
               \<longrightarrow> poGet po' u v = Some PO_LT" by blast
  have c: "poClosure po_chain3 = Some \<lparr>po_dim = 3, po_data =
         [PO_INCOMPARABLE, PO_LT, PO_LT,
          PO_GT, PO_INCOMPARABLE, PO_LT,
          PO_GT, PO_GT, PO_INCOMPARABLE]\<rparr>" by code_simp
  have g: "poGet po' 0 1 = Some PO_LT" "poGet po' 1 2 = Some PO_LT"
    using p(1) unfolding c by (auto simp: poGet_def)
  have "poGet po' 0 2 = Some PO_LT" using p(2) g by blast
  then show ?thesis using po_chain3_hyps p(1) g by blast
qed

text \<open>
  The claim as stated (any matrix built by set-order calls) fails on a cycle: after
  \<open>0 < 1\<close>, \<open>1 < 2\<close> and \<open>0 > 2\<close> the closure changes nothing, so \<open>get(0, 1) = LT\<close> and
  \<open>get(1, 2) = LT\<close> while \<open>get(0, 2) = GT\<close>.
\<close>

theorem poClosure_transitive_counterexample:
  "poSetOrders (poNew 3) [(0, 1, PO_LT), (1, 2, PO_LT), (0, 2, PO_GT)]
     = Some \<lparr>po_dim = 3, po_data =
         [PO_INCOMPARABLE, PO_LT, PO_GT,
          PO_GT, PO_INCOMPARABLE, PO_LT,
          PO_LT, PO_GT, PO_INCOMPARABLE]\<rparr> \<and>
   poClosure \<lparr>po_dim = 3, po_data =
         [PO_INCOMPARABLE, PO_LT, PO_GT,
          PO_GT, PO_INCOMPARABLE, PO_LT,
          PO_LT, PO_GT, PO_INCOMPARABLE]\<rparr>
     = Some \<lparr>po_dim = 3, po_data =
         [PO_INCOMPARABLE, PO_LT, PO_GT,
          PO_GT, PO_INCOMPARABLE, PO_LT,
          PO_LT, PO_GT, PO_INCOMPARABLE]\<rparr>"
  by code_simp

lemma closed_body_id:
  assumes "po_wf t" "po_dim t = n" "mirrorF n (po_rel t)" "closedF n n (po_rel t)"
    "k < n" "i < n" "j < n"
  shows "poClosure_body k i j t = Some t"
proof (cases "closure_fires t k i j")
  case False
  show ?thesis
    by (rule poClosure_body_idle) (use assms False in simp_all)
next
  case True
  have f1: "po_rel t i j = PO_INCOMPARABLE" and f2: "po_rel t i k = po_rel t k j"
    using True unfolding closure_fires_def by blast+
  have r: "po_rel t i k = PO_INCOMPARABLE"
  proof (rule ccontr)
    assume "po_rel t i k \<noteq> PO_INCOMPARABLE"
    then have "po_rel t i j = po_rel t i k"
      using assms(4,5,6,7) f2 unfolding closedF_def by metis
    then show False using f1 \<open>po_rel t i k \<noteq> PO_INCOMPARABLE\<close> by metis
  qed
  have "po_rel t j i = poInverse (po_rel t i j)"
    using assms(3,6,7) unfolding mirrorF_def by blast
  then have f3: "po_rel t j i = PO_INCOMPARABLE" unfolding f1 by simp
  have b: "k < po_dim t" "i < po_dim t" "j < po_dim t" using assms by simp_all
  have "poClosure_body k i j t = poSetOrder t i j PO_INCOMPARABLE"
    using poClosure_body_fires[OF b True] unfolding r .
  also have "\<dots> = Some (t\<lparr>po_data := ((po_data t)[i * po_dim t + j := PO_INCOMPARABLE])
                              [j * po_dim t + i := PO_INCOMPARABLE]\<rparr>)"
    using b by (simp add: poSetOrder_def Let_def)
  also have "(po_data t)[i * po_dim t + j := PO_INCOMPARABLE] = po_data t"
    using f1 unfolding po_rel_def by (metis list_update_id)
  also have "(po_data t)[j * po_dim t + i := PO_INCOMPARABLE] = po_data t"
    using f3 unfolding po_rel_def by (metis list_update_id)
  finally show ?thesis by simp
qed

lemma closed_fixpoint:
  assumes "po_wf t" "po_dim t = n" "mirrorF n (po_rel t)" "closedF n n (po_rel t)"
  shows "poClosure t = Some t"
proof -
  have j: "\<exists>s'. for_loop 0 n (\<lambda>j. poClosure_body k i j) s = Some s' \<and> s' = t"
    if "k < n" "i < n" "s = t" for k i s
    by (rule for_loop_rule[where I = "\<lambda>_ s. s = t"])
       (use that closed_body_id[OF assms] in auto)
  have i: "\<exists>s'. for_loop 0 n (\<lambda>i. for_loop 0 n (\<lambda>j. poClosure_body k i j)) s = Some s' \<and> s' = t"
    if "k < n" "s = t" for k s
    by (rule for_loop_rule[where I = "\<lambda>_ s. s = t"]) (use that j in auto)
  have "\<exists>s'. for_loop 0 n (\<lambda>k. for_loop 0 n (\<lambda>i. for_loop 0 n (\<lambda>j. poClosure_body k i j))) t = Some s' \<and> s' = t"
    by (rule for_loop_rule[where I = "\<lambda>_ s. s = t"]) (use i in auto)
  then show ?thesis using assms(2) by (simp add: poClosure_def Let_def)
qed

text \<open>
  Claim C6 (the closure is idempotent), as amended: on a matrix with the mirror invariant
  whose relations are consistent with a ranking, \<^verbatim>\<open>poClosure\<close> returns a matrix that a second
  \<^verbatim>\<open>poClosure\<close> leaves as it is.
\<close>

theorem poClosure_idempotent:
  assumes "po_wf po" "po_mirror po" "po_consistent f po"
  shows "\<exists>po'. poClosure po = Some po' \<and> poClosure po' = Some po'"
proof -
  let ?n = "po_dim po"
  from poClosure_closed[OF assms]
  obtain po' where p: "poClosure po = Some po'" "outer_inv ?n f po ?n po'" by blast
  have "po_wf po'" "po_dim po' = ?n" "mirrorF ?n (po_rel po')" "closedF ?n ?n (po_rel po')"
    using p(2) unfolding outer_inv_def by blast+
  then have "poClosure po' = Some po'" by (rule closed_fixpoint)
  then show ?thesis using p(1) by blast
qed

theorem poClosure_idempotent_witness:
  "po_wf po_chain3 \<and> po_mirror po_chain3 \<and> po_consistent (\<lambda>x. x) po_chain3 \<and>
   (\<exists>po'. poClosure po_chain3 = Some po' \<and> poClosure po' = Some po')"
  using poClosure_idempotent[OF po_chain3_hyps] po_chain3_hyps by blast

text \<open>
  For every matrix the claim fails: with \<open>2 < 1\<close>, \<open>1 < 0\<close>, \<open>0 < 3\<close> and \<open>1 > 3\<close> (a cycle
  through 0, 3 and 1) the first closure leaves \<open>(2, 3)\<close> incomparable and the second one sets
  it to \<open>LT\<close>.
\<close>

theorem poClosure_idempotent_counterexample:
  "poSetOrders (poNew 4) [(2, 1, PO_LT), (1, 0, PO_LT), (0, 3, PO_LT), (1, 3, PO_GT)]
     = Some \<lparr>po_dim = 4, po_data =
         [PO_INCOMPARABLE, PO_GT, PO_INCOMPARABLE, PO_LT,
          PO_LT, PO_INCOMPARABLE, PO_GT, PO_GT,
          PO_INCOMPARABLE, PO_LT, PO_INCOMPARABLE, PO_INCOMPARABLE,
          PO_GT, PO_LT, PO_INCOMPARABLE, PO_INCOMPARABLE]\<rparr> \<and>
   poClosure \<lparr>po_dim = 4, po_data =
         [PO_INCOMPARABLE, PO_GT, PO_INCOMPARABLE, PO_LT,
          PO_LT, PO_INCOMPARABLE, PO_GT, PO_GT,
          PO_INCOMPARABLE, PO_LT, PO_INCOMPARABLE, PO_INCOMPARABLE,
          PO_GT, PO_LT, PO_INCOMPARABLE, PO_INCOMPARABLE]\<rparr>
     = Some \<lparr>po_dim = 4, po_data =
         [PO_INCOMPARABLE, PO_GT, PO_GT, PO_LT,
          PO_LT, PO_INCOMPARABLE, PO_GT, PO_GT,
          PO_LT, PO_LT, PO_INCOMPARABLE, PO_INCOMPARABLE,
          PO_GT, PO_LT, PO_INCOMPARABLE, PO_INCOMPARABLE]\<rparr> \<and>
   poClosure \<lparr>po_dim = 4, po_data =
         [PO_INCOMPARABLE, PO_GT, PO_GT, PO_LT,
          PO_LT, PO_INCOMPARABLE, PO_GT, PO_GT,
          PO_LT, PO_LT, PO_INCOMPARABLE, PO_INCOMPARABLE,
          PO_GT, PO_LT, PO_INCOMPARABLE, PO_INCOMPARABLE]\<rparr>
     = Some \<lparr>po_dim = 4, po_data =
         [PO_INCOMPARABLE, PO_GT, PO_GT, PO_LT,
          PO_LT, PO_INCOMPARABLE, PO_GT, PO_GT,
          PO_LT, PO_LT, PO_INCOMPARABLE, PO_LT,
          PO_GT, PO_LT, PO_GT, PO_INCOMPARABLE]\<rparr>"
  by code_simp

lemma idx_lt2: "u < m \<Longrightarrow> v < n \<Longrightarrow> u * n + v < m * (n::nat)"
proof -
  assume a: "u < m" "v < n"
  then have "u * n + v < u * n + n" by simp
  also have "\<dots> = (Suc u) * n" by simp
  also have "\<dots> \<le> m * n" using a(1) by (metis Suc_leI mult_le_mono1)
  finally show ?thesis .
qed

lemma triple_loop_rule:
  assumes "I 0 s"
    and "\<And>k i j t. k < n \<Longrightarrow> i < n \<Longrightarrow> j < n \<Longrightarrow> I ((k * n + i) * n + j) t
           \<Longrightarrow> \<exists>t'. body k i j t = Some t' \<and> I (Suc ((k * n + i) * n + j)) t'"
  shows "\<exists>s'. for_loop 0 n (\<lambda>k. for_loop 0 n (\<lambda>i. for_loop 0 n (\<lambda>j. body k i j))) s = Some s'
           \<and> I (n * n * n) s'"
proof -
  have inner: "\<exists>t'. for_loop 0 n (\<lambda>i. for_loop 0 n (\<lambda>j. body k i j)) t = Some t' \<and> I (Suc k * (n * n)) t'"
    if "k < n" "I (k * (n * n)) t" for k t
  proof -
    have st: "\<exists>t'. body k i j u = Some t' \<and> I (Suc (k * (n * n) + (i * n + j))) t'"
      if h: "i < n" "j < n" "I (k * (n * n) + (i * n + j)) u" for i j u
    proof -
      have e: "k * (n * n) + (i * n + j) = (k * n + i) * n + j"
        by (simp add: algebra_simps)
      show ?thesis using assms(2)[OF \<open>k < n\<close> h(1,2)] h(3) unfolding e by blast
    qed
    have "\<exists>t'. for_loop 0 n (\<lambda>i. for_loop 0 n (\<lambda>j. body k i j)) t = Some t' \<and>
            I (k * (n * n) + n * n) t'"
      by (rule double_loop_rule[where I = "\<lambda>p. I (k * (n * n) + p)"]) (use that(2) st in auto)
    then show ?thesis by (simp add: add.commute)
  qed
  have "\<exists>s'. for_loop 0 n (\<lambda>k. for_loop 0 n (\<lambda>i. for_loop 0 n (\<lambda>j. body k i j))) s = Some s'
           \<and> (\<lambda>k. I (k * (n * n))) n s'"
    by (rule for_loop_rule[where I = "\<lambda>k. I (k * (n * n))"]) (use assms(1) inner in auto)
  then show ?thesis by (simp add: mult.assoc)
qed

lemma fill_inv_step:
  assumes "fill_inv n po ((k0 * n + i0) * n + j0) i0 j0 ((k * n + i) * n + j) t"
    "k < n" "i < n" "j < n" "k0 < n" "i0 < n" "j0 < n"
    "po_rel po i0 k0 = r" "po_rel po k0 j0 = r" "r \<noteq> PO_INCOMPARABLE"
  shows "\<exists>t'. poClosure_body k i j t = Some t' \<and>
           fill_inv n po ((k0 * n + i0) * n + j0) i0 j0 (Suc ((k * n + i) * n + j)) t'"
proof -
  let ?q = "(k0 * n + i0) * n + j0" and ?p = "(k * n + i) * n + j"
  have a: "po_wf t" "po_dim t = n" "mirrorF n (po_rel t)" "monoF n (po_rel po) (po_rel t)"
    "?q < ?p \<longrightarrow> po_rel t i0 j0 \<noteq> PO_INCOMPARABLE"
    using assms(1) unfolding fill_inv_def by blast+
  from poClosure_body_stepF[OF a(1,2) assms(2-4)]
  obtain t' where t': "poClosure_body k i j t = Some t'" "po_wf t'" "po_dim t' = n"
    "stepF n k i j (po_rel t) (po_rel t')" by blast
  note st = t'(4) a(3) assms(2-4)
  have m: "mirrorF n (po_rel t')" by (rule stepF_mirror[OF st])
  have mo: "monoF n (po_rel po) (po_rel t')" by (rule stepF_mono[OF st a(4)])
  have tgt: "po_rel t' i0 j0 \<noteq> PO_INCOMPARABLE" if lt: "?q < Suc ?p"
  proof (cases "?q < ?p")
    case True
    then have n0: "po_rel t i0 j0 \<noteq> PO_INCOMPARABLE" using a(5) by blast
    have "po_rel t' i0 j0 = po_rel t i0 j0"
      by (rule stepF_unchanged[OF st assms(6,7) n0])
    then show ?thesis using n0 by metis
  next
    case False
    then have "?p = ?q" using lt by simp
    then have "k * n + i = k0 * n + i0 \<and> j = j0"
      using idx_inj[OF assms(4,7), of "k * n + i" "k0 * n + i0"] by blast
    then have e1: "k * n + i = k0 * n + i0" and jj: "j = j0" by simp_all
    have "k = k0 \<and> i = i0"
      using e1 idx_inj[OF assms(3,6), of k k0] by blast
    then have kk: "k = k0" and ii: "i = i0" by simp_all
    have ik: "po_rel t i0 k0 = r" using a(4) assms(5,6,8,10) unfolding monoF_def by metis
    have kj: "po_rel t k0 j0 = r" using a(4) assms(5,7,9,10) unfolding monoF_def by metis
    show ?thesis
    proof (cases "po_rel t i0 j0 = PO_INCOMPARABLE")
      case True
      have e2: "po_rel t i0 k0 = po_rel t k0 j0" using ik kj by metis
      have st0: "stepF n k0 i0 j0 (po_rel t) (po_rel t')" using t'(4) unfolding kk ii jj .
      have "po_rel t' i0 j0 = po_rel t i0 k0"
        by (rule stepF_fire(1)[OF st0 a(3) assms(5,6,7) True e2])
      then show ?thesis using ik assms(10) by metis
    next
      case False
      have "po_rel t' i0 j0 = po_rel t i0 j0"
        by (rule stepF_unchanged[OF st assms(6,7) False])
      then show ?thesis using False by metis
    qed
  qed
  have "fill_inv n po ?q i0 j0 (Suc ?p) t'"
    unfolding fill_inv_def using t'(2,3) m mo tgt by blast
  then show ?thesis using t'(1) by blast
qed

text \<open>
  Claim C4 (the closure never propagates equality), as amended. The guard of \<^verbatim>\<open>poClosure\<close> is
  \<^verbatim>\<open>poGet(po, i, k) == poGet(po, k, j)\<close> alone, so it bridges \<open>EQ\<close> as it bridges \<open>LT\<close> and
  \<open>GT\<close>: on a matrix with the mirror invariant, when \<open>M[i][k]\<close> and \<open>M[k][j]\<close> hold the same
  relation \<open>r\<close> (\<open>LT\<close>, \<open>GT\<close> or \<open>EQ\<close>) and \<open>M[i][j]\<close> is incomparable, the step for
  \<open>(k, i, j)\<close> sets \<open>M[i][j]\<close> to \<open>r\<close>, and the closure does not leave \<open>M[i][j]\<close> incomparable.
\<close>

theorem poClosure_fills_equal_relations:
  assumes "po_wf po" "po_mirror po"
    "poGet po i k = Some r" "poGet po k j = Some r" "r \<noteq> PO_INCOMPARABLE"
    "poGet po i j = Some PO_INCOMPARABLE"
  shows "(\<exists>po1. poClosure_body k i j po = Some po1 \<and> poGet po1 i j = Some r) \<and>
         (\<exists>po' r'. poClosure po = Some po' \<and> poGet po' i j = Some r' \<and> r' \<noteq> PO_INCOMPARABLE)"
proof -
  let ?n = "po_dim po"
  note a = poGet_SomeD[OF assms(3)] and b = poGet_SomeD[OF assms(4)]
    and c = poGet_SomeD[OF assms(6)]
  have mi: "mirrorF ?n (po_rel po)" using assms(2) by (simp add: po_mirror_F)
  have part1: "\<exists>po1. poClosure_body k i j po = Some po1 \<and> poGet po1 i j = Some r"
  proof -
    from poClosure_body_stepF[OF assms(1) refl a(2,1) b(2)]
    obtain t' where t': "poClosure_body k i j po = Some t'" "po_wf t'" "po_dim t' = ?n"
      "stepF ?n k i j (po_rel po) (po_rel t')" by blast
    have "po_rel po i k = po_rel po k j" using a(3) b(3) by metis
    then have "po_rel t' i j = po_rel po i k"
      using stepF_fire(1)[OF t'(4) mi a(2,1) b(2) c(3)] by blast
    then have "po_rel t' i j = r" using a(3) by metis
    moreover have "poGet t' i j = Some (po_rel t' i j)"
      by (rule poGet_rel) (use t'(3) a(1) b(2) in simp_all)
    ultimately show ?thesis using t'(1) by metis
  qed
  have part2: "\<exists>po' r'. poClosure po = Some po' \<and> poGet po' i j = Some r' \<and> r' \<noteq> PO_INCOMPARABLE"
  proof -
    let ?q = "(k * ?n + i) * ?n + j"
    have i0: "fill_inv ?n po ?q i j 0 po"
      unfolding fill_inv_def using assms(1) mi by (simp add: monoF_refl)
    have "\<exists>s'. for_loop 0 ?n (\<lambda>k. for_loop 0 ?n (\<lambda>i. for_loop 0 ?n (\<lambda>j. poClosure_body k i j))) po = Some s'
           \<and> fill_inv ?n po ?q i j (?n * ?n * ?n) s'"
    proof (rule triple_loop_rule[where I = "fill_inv ?n po ?q i j"])
      show "fill_inv ?n po ?q i j 0 po" by (rule i0)
    next
      fix k' i' j' t assume h: "k' < ?n" "i' < ?n" "j' < ?n"
        "fill_inv ?n po ?q i j ((k' * ?n + i') * ?n + j') t"
      show "\<exists>t'. poClosure_body k' i' j' t = Some t' \<and>
          fill_inv ?n po ?q i j (Suc ((k' * ?n + i') * ?n + j')) t'"
        by (rule fill_inv_step[OF h(4) h(1-3) a(2,1) b(2) a(3) b(3) assms(5)])
    qed
    then obtain po' where p: "poClosure po = Some po'" "fill_inv ?n po ?q i j (?n * ?n * ?n) po'"
      by (auto simp: poClosure_def Let_def)
    have "k * ?n + i < ?n * ?n" by (rule idx_lt2[OF a(2,1)])
    then have "?q < ?n * ?n * ?n" by (rule idx_lt2[OF _ b(2)])
    then have ne: "po_rel po' i j \<noteq> PO_INCOMPARABLE" and d: "po_dim po' = ?n"
      using p(2) unfolding fill_inv_def by blast+
    have "poGet po' i j = Some (po_rel po' i j)"
      by (rule poGet_rel) (use d a(1) b(2) in simp_all)
    then show ?thesis using p(1) ne by blast
  qed
  show ?thesis using part1 part2 by blast
qed

lemma po_eq3_hyps:
  "po_wf po_eq3" "po_mirror po_eq3"
  "poGet po_eq3 0 1 = Some PO_EQ" "poGet po_eq3 1 2 = Some PO_EQ" "PO_EQ \<noteq> PO_INCOMPARABLE"
  "poGet po_eq3 0 2 = Some PO_INCOMPARABLE"
  by code_simp+

theorem poClosure_fills_equal_relations_witness:
  "po_wf po_eq3 \<and> po_mirror po_eq3 \<and>
   poGet po_eq3 0 1 = Some PO_EQ \<and> poGet po_eq3 1 2 = Some PO_EQ \<and>
   poGet po_eq3 0 2 = Some PO_INCOMPARABLE \<and>
   (\<exists>po1. poClosure_body 1 0 2 po_eq3 = Some po1 \<and> poGet po1 0 2 = Some PO_EQ) \<and>
   (\<exists>po' r'. poClosure po_eq3 = Some po' \<and> poGet po' 0 2 = Some r' \<and> r' \<noteq> PO_INCOMPARABLE)"
  using poClosure_fills_equal_relations[OF po_eq3_hyps] po_eq3_hyps by blast

text \<open>
  The claim as stated fails: after \<open>0 = 1\<close> and \<open>1 = 2\<close> the entry \<open>(0, 2)\<close> is incomparable,
  and the closure sets it (and every other entry) to \<open>EQ\<close>.
\<close>

theorem poClosure_bridges_EQ_counterexample:
  "poSetOrders (poNew 3) [(0, 1, PO_EQ), (1, 2, PO_EQ)]
     = Some \<lparr>po_dim = 3, po_data =
         [PO_INCOMPARABLE, PO_EQ, PO_INCOMPARABLE,
          PO_EQ, PO_INCOMPARABLE, PO_EQ,
          PO_INCOMPARABLE, PO_EQ, PO_INCOMPARABLE]\<rparr> \<and>
   poClosure \<lparr>po_dim = 3, po_data =
         [PO_INCOMPARABLE, PO_EQ, PO_INCOMPARABLE,
          PO_EQ, PO_INCOMPARABLE, PO_EQ,
          PO_INCOMPARABLE, PO_EQ, PO_INCOMPARABLE]\<rparr>
     = Some \<lparr>po_dim = 3, po_data =
         [PO_EQ, PO_EQ, PO_EQ,
          PO_EQ, PO_EQ, PO_EQ,
          PO_EQ, PO_EQ, PO_EQ]\<rparr>"
  by code_simp

subsection \<open>Hill climbing\<close>

text \<open>
  Claim C1 (pass restart and convergence). The claim expects that a pass with an accepted swap
  is followed by another pass, and that from \<open>[0,1,2,3]\<close> with the score \<open>-sum(i * perm[i])\<close>
  the climber ends with \<open>best_seq = [3,2,1,0]\<close>. In the code the statement
  \<^verbatim>\<open>hc->improved = 0\<close> after the pass is unconditional, so the loop
  \<^verbatim>\<open>while(!err && hc->improved)\<close> runs one pass: the first step returns \<^verbatim>\<open>RC_ERR_COMPLETE\<close>
  with \<open>best_seq = [3,1,2,0]\<close> (every candidate of the pass is a swap of \<open>[0,1,2,3]\<close>),
  and a further step returns \<^verbatim>\<open>RC_ERR_COMPLETE\<close> again without a pass.
\<close>

theorem hill_climb_single_pass_actual:
  "hill_climb_step (hill_climb_init (pmIdentity (pmNew 4))) (poNew 4) neg_weighted_sum ()
     = Some (RC_ERR_COMPLETE,
         \<lparr>hc_best_seq = \<lparr>pm_size = 4, pm_capacity = 4, elements = [3, 1, 2, 0]\<rparr>,
          hc_next_seq = \<lparr>pm_size = 4, pm_capacity = 4, elements = [0, 1, 2, 3]\<rparr>,
          hc_n = 4, hc_i = 0, hc_j = 1, hc_improved = False\<rparr>, ()) \<and>
   hill_climb_step
         \<lparr>hc_best_seq = \<lparr>pm_size = 4, pm_capacity = 4, elements = [3, 1, 2, 0]\<rparr>,
          hc_next_seq = \<lparr>pm_size = 4, pm_capacity = 4, elements = [0, 1, 2, 3]\<rparr>,
          hc_n = 4, hc_i = 0, hc_j = 1, hc_improved = False\<rparr> (poNew 4) neg_weighted_sum ()
     = Some (RC_ERR_COMPLETE,
         \<lparr>hc_best_seq = \<lparr>pm_size = 4, pm_capacity = 4, elements = [3, 1, 2, 0]\<rparr>,
          hc_next_seq = \<lparr>pm_size = 4, pm_capacity = 4, elements = [0, 1, 2, 3]\<rparr>,
          hc_n = 4, hc_i = 0, hc_j = 1, hc_improved = False\<rparr>, ())"
  by code_simp

subsection \<open>Oracle errors\<close>












subsection \<open>Best-first search: the priority queue\<close>

lemma heapify_capacity: "heap_capacity (heapify heap i) = heap_capacity heap"
proof (induction heap i rule: heapify.induct)
  case (1 heap i)
  show ?case
    by (subst heapify.simps) (auto simp: Let_def 1)
qed

lemma heapify_length: "length (heap_data (heapify heap i)) = length (heap_data heap)"
proof (induction heap i rule: heapify.induct)
  case (1 heap i)
  show ?case
    by (subst heapify.simps) (auto simp: Let_def 1)
qed

lemma heapify_all:
  assumes "heap_all P heap" "1 \<le> i" "heap_size heap < length (heap_data heap)"
  shows "heap_all P (heapify heap i)"
  using assms
proof (induction heap i rule: heapify.induct)
  case (1 heap i)
  let ?d = "heap_data heap"
  let ?l = "LEFT i" and ?r = "RIGHT i"
  let ?la = "if ?l < heap_size heap \<and> key (?d ! ?l) > key (?d ! i) then ?l else i"
  let ?lg = "if ?r < heap_size heap \<and> key (?d ! i) > key (?d ! ?la) then ?r else ?la"
  show ?case
  proof (cases "?lg = i")
    case True
    then have "heapify heap i = heap"
      by (subst heapify.simps) (simp add: Let_def)
    then show ?thesis using "1.prems"(1) by simp
  next
    case False
    let ?h = "heap\<lparr>heap_data := (?d[i := ?d ! ?lg])[?lg := ?d ! i]\<rparr>"
    have e: "heapify heap i = heapify ?h ?lg"
      using False by (subst heapify.simps) (simp add: Let_def)
    have lg: "?lg < heap_size heap" "i < ?lg"
      using False "1.prems"(2) by (auto simp: LEFT_def RIGHT_def split: if_splits)
    have all: "heap_all P ?h"
      unfolding heap_all_def
    proof
      fix k assume k: "k \<in> {1..heap_size ?h}"
      have Pi: "P (val (?d ! i))" and Pl: "P (val (?d ! ?lg))"
        using "1.prems"(1,2) lg unfolding heap_all_def by auto
      have Pk: "P (val (?d ! k))" using "1.prems"(1) k unfolding heap_all_def by auto
      have "k < length ?d" "i < length ?d" "?lg < length ?d"
        using k lg "1.prems"(3) by auto
      then show "P (val (heap_data ?h ! k))"
        using Pi Pl Pk by (auto simp: nth_list_update)
    qed
    have "heap_all P (heapify ?h ?lg)"
      by (rule "1.IH"[OF refl refl refl refl False refl refl refl all])
         (use lg "1.prems" in auto)
    then show ?thesis unfolding e .
  qed
qed

lemma heap_insert_loop_length: "length (fst (heap_insert_loop d i k)) = length d"
proof (induction d i k rule: heap_insert_loop.induct)
  case (1 d i k)
  show ?case by (subst heap_insert_loop.simps) (auto simp: 1)
qed

lemma heap_insert_loop_hole:
  assumes "\<forall>x \<in> {1..sz} - {i}. P (val (d ! x))" "1 \<le> i" "i \<le> sz" "sz < length d"
    "heap_insert_loop d i k = (d', i')"
  shows "(\<forall>x \<in> {1..sz} - {i'}. P (val (d' ! x))) \<and> 1 \<le> i' \<and> i' \<le> sz"
  using assms
proof (induction d i k rule: heap_insert_loop.induct)
  case (1 d i k)
  show ?case
  proof (cases "i > 1 \<and> key (d ! PARENT i) < k")
    case False
    have "heap_insert_loop d i k = (d, i)"
      by (subst heap_insert_loop.simps) (use False in auto)
    then show ?thesis using "1.prems" by simp
  next
    case True
    then have e: "heap_insert_loop d i k = heap_insert_loop (d[i := d ! PARENT i]) (PARENT i) k"
      by (subst heap_insert_loop.simps) simp
    have p: "1 \<le> PARENT i" "PARENT i < i" using True by (auto simp: PARENT_def)
    have h: "\<forall>x \<in> {1..sz} - {PARENT i}. P (val ((d[i := d ! PARENT i]) ! x))"
    proof
      fix x assume x: "x \<in> {1..sz} - {PARENT i}"
      show "P (val ((d[i := d ! PARENT i]) ! x))"
      proof (cases "x = i")
        case True
        have "PARENT i \<in> {1..sz} - {i}" using p "1.prems"(3) by auto
        then have "P (val (d ! PARENT i))" using "1.prems"(1) by blast
        then show ?thesis using True "1.prems"(3,4) by simp
      next
        case False
        then have "P (val (d ! x))" using "1.prems"(1) x by blast
        then show ?thesis using False by simp
      qed
    qed
    show ?thesis
      by (rule "1.IH"[OF True h]) (use p "1.prems" e in auto)
  qed
qed

lemma heap_insert_Some:
  assumes "heap_size heap < heap_capacity heap"
  shows "\<exists>heap'. heap_insert heap k v = Some heap'"
  using assms by (simp add: heap_insert_def Let_def split: prod.splits)


lemma heap_insert_frame:
  assumes "heap_insert heap k v = Some heap'"
  shows "heap_size heap' = heap_size heap + 1" "heap_capacity heap' = heap_capacity heap"
    "length (heap_data heap') = length (heap_data heap)"
proof -
  have lt: "heap_size heap < heap_capacity heap"
    using assms by (auto simp: heap_insert_def split: if_splits)
  obtain d i where l: "heap_insert_loop (heap_data heap) (heap_size heap + 1) k = (d, i)"
    by (cases "heap_insert_loop (heap_data heap) (heap_size heap + 1) k") auto
  have h': "heap' = heap\<lparr>heap_size := heap_size heap + 1, heap_data := d[i := \<lparr>key = k, val = v\<rparr>]\<rparr>"
    using assms lt l by (simp add: heap_insert_def Let_def)
  show "heap_size heap' = heap_size heap + 1" "heap_capacity heap' = heap_capacity heap"
    using h' by simp_all
  have "length d = length (heap_data heap)"
    using heap_insert_loop_length[of "heap_data heap" "heap_size heap + 1" k] l by simp
  then show "length (heap_data heap') = length (heap_data heap)" using h' by simp
qed

lemma heap_insert_wf:
  assumes "heap_insert heap k v = Some heap'" "heap_wf heap"
  shows "heap_wf heap'"
proof -
  have lt: "heap_size heap < heap_capacity heap"
    using assms by (auto simp: heap_insert_def split: if_splits)
  show ?thesis
    using heap_insert_frame[OF assms(1)] assms(2) lt by (simp add: heap_wf_def)
qed

lemma heap_insert_all:
  assumes "heap_insert heap k v = Some heap'" "heap_wf heap" "heap_all P heap" "P v"
  shows "heap_all P heap'"
proof -
  have lt: "heap_size heap < heap_capacity heap"
    using assms by (auto simp: heap_insert_def split: if_splits)
  let ?sz = "heap_size heap + 1"
  obtain d i where l: "heap_insert_loop (heap_data heap) ?sz k = (d, i)"
    by (cases "heap_insert_loop (heap_data heap) ?sz k") auto
  have h': "heap' = heap\<lparr>heap_size := ?sz, heap_data := d[i := \<lparr>key = k, val = v\<rparr>]\<rparr>"
    using assms(1) lt l by (simp add: heap_insert_def Let_def)
  have len: "?sz < length (heap_data heap)" using assms(2) lt by (simp add: heap_wf_def)
  have a: "\<forall>x \<in> {1..?sz} - {?sz}. P (val (heap_data heap ! x))"
    using assms(3) unfolding heap_all_def by auto
  from heap_insert_loop_hole[OF a _ _ len l]
  have hole: "\<forall>x \<in> {1..?sz} - {i}. P (val (d ! x))" and i: "1 \<le> i" "i \<le> ?sz" by auto
  have ld: "length d = length (heap_data heap)"
    using heap_insert_loop_length[of "heap_data heap" ?sz k] l by simp
  show ?thesis
    unfolding heap_all_def
  proof
    fix x assume x: "x \<in> {1..heap_size heap'}"
    then have xr: "x \<in> {1..?sz}" using h' by simp
    show "P (val (heap_data heap' ! x))"
    proof (cases "x = i")
      case True
      then show ?thesis using h' assms(4) i len ld by simp
    next
      case False
      then have "P (val (d ! x))" using hole xr by blast
      then show ?thesis using h' False by simp
    qed
  qed
qed

lemma heap_extract_max_frame:
  assumes "heap_extract_max heap = Some (v, heap')"
  shows "heap_size heap' = heap_size heap - 1" "heap_capacity heap' = heap_capacity heap"
    "length (heap_data heap') = length (heap_data heap)" "0 < heap_size heap"
    "v = val (heap_data heap ! 1)"
  using assms
  by (auto simp: heap_extract_max_def Let_def heapify_size heapify_capacity heapify_length
      split: if_splits)

lemma heap_extract_max_wf:
  assumes "heap_extract_max heap = Some (v, heap')" "heap_wf heap"
  shows "heap_wf heap'"
  using heap_extract_max_frame[OF assms(1)] assms(2) by (auto simp: heap_wf_def)

lemma heap_extract_max_all:
  assumes "heap_extract_max heap = Some (v, heap')" "heap_wf heap" "heap_all P heap"
  shows "P v \<and> heap_all P heap'"
proof -
  note f = heap_extract_max_frame[OF assms(1)]
  have Pv: "P v" using f(4,5) assms(3) unfolding heap_all_def by auto
  let ?h = "heap\<lparr>heap_data := (heap_data heap)[1 := heap_data heap ! heap_size heap],
                  heap_size := heap_size heap - 1\<rparr>"
  have e: "heap' = heapify ?h 1"
    using assms(1) f(4) by (simp add: heap_extract_max_def Let_def)
  have len: "heap_size heap < length (heap_data heap)" using assms(2) by (simp add: heap_wf_def)
  have "heap_all P ?h"
    unfolding heap_all_def
  proof
    fix k assume k: "k \<in> {1..heap_size ?h}"
    have "P (val (heap_data heap ! heap_size heap))" "P (val (heap_data heap ! k))"
      using assms(3) f(4) k unfolding heap_all_def by auto
    moreover have "Suc 0 < length (heap_data heap)" using len f(4) by simp
    ultimately show "P (val (heap_data ?h ! k))" by (cases "k = Suc 0") auto
  qed
  then have "heap_all P (heapify ?h 1)"
    by (rule heapify_all) (use len in auto)
  then show ?thesis using Pv e by simp
qed

lemma fold_update_length:
  "length (fold (\<lambda>i es. es[i := f i]) [0..<m] xs) = length xs"
  by (induction m) auto

lemma fold_update_nth:
  "j < length xs \<Longrightarrow>
   fold (\<lambda>i es. es[i := f i]) [0..<m] xs ! j = (if j < m then f j else xs ! j)"
proof (induction m)
  case 0
  then show ?case by simp
next
  case (Suc m)
  then show ?case
    by (auto simp: nth_list_update fold_update_length less_Suc_eq)
qed

lemma pmCopyAll_props:
  assumes "pmCopyAll copy ptr = Some c"
  shows "pm_capacity c = pm_capacity copy" "pm_size c = pm_size ptr"
    "length (elements c) = length (elements copy)"
    "pm_capacity ptr \<le> pm_capacity copy"
    "\<And>j. j < length (elements copy) \<Longrightarrow> j < pm_capacity ptr \<Longrightarrow> elements c ! j = elements ptr ! j"
  using assms
  by (auto simp: pmCopyAll_def fold_update_length fold_update_nth split: if_splits)

lemma pmDup_props:
  "pm_capacity (pmDup p) = pm_capacity p" "pm_size (pmDup p) = pm_size p"
  "pm_wf (pmDup p)"
  "\<And>j. j < pm_capacity p \<Longrightarrow> elements (pmDup p) ! j = elements p ! j"
  by (auto simp: pmDup_def pmNew_def Let_def pm_wf_def fold_update_length fold_update_nth)

lemma pmSwap_props:
  "pm_capacity (pmSwap p i j) = pm_capacity p" "pm_size (pmSwap p i j) = pm_size p"
  "length (elements (pmSwap p i j)) = length (elements p)"
  by (auto simp: pmSwap_def Let_def)

lemma pmSwap_nth:
  assumes "i < length (elements p)" "j < length (elements p)"
  shows "elements (pmSwap p i j) ! k =
           (if k = j then elements p ! i else if k = i then elements p ! j else elements p ! k)"
  using assms by (auto simp: pmSwap_def Let_def nth_list_update)

lemma pmSetSize_props:
  assumes "pmSetSize p m = Some q"
  shows "pm_capacity q = pm_capacity p" "pm_size q = m" "elements q = elements p"
    "m \<le> pm_capacity p"
  using assms by (auto simp: pmSetSize_def split: if_splits)

lemma pmIdentity_pmNew:
  "pmIdentity (pmNew n) = \<lparr>pm_size = n, pm_capacity = n, elements = [0..<n]\<rparr>"
proof -
  have "fold (\<lambda>i es. es[i := i]) [0..<n] (replicate n 0) = [0..<n]"
    by (rule nth_equalityI) (auto simp: fold_update_length fold_update_nth)
  then show ?thesis by (simp add: pmIdentity_def pmNew_def)
qed

lemma rel_ok_D:
  assumes "rel_ok po a b"
  shows "a < po_dim po" "b < po_dim po" "poGet po a b \<noteq> Some PO_GT" "poGet po a b \<noteq> None"
  using assms by (auto simp: rel_ok_def poGet_def split: option.splits if_splits)

lemma poIsMin_loop_ok:
  "poIsMin_loop po u i = Some True \<Longrightarrow> \<forall>v. i \<le> v \<and> v < po_dim po \<longrightarrow> rel_ok po u v"
proof (induction po u i rule: poIsMin_loop.induct)
  case (1 po u i)
  show ?case
  proof (cases "i < po_dim po")
    case False
    then show ?thesis by auto
  next
    case True
    from "1.prems" True obtain r where r: "poGet po u i = Some r"
      by (cases "poGet po u i") (auto simp: poIsMin_loop.simps[of po u i])
    have ng: "r \<noteq> PO_GT"
      using "1.prems" True r by (auto simp: poIsMin_loop.simps[of po u i] split: if_splits)
    then have nxt: "poIsMin_loop po u (i + 1) = Some True"
      using "1.prems" True r by (simp add: poIsMin_loop.simps[of po u i])
    have ih: "\<forall>v. i + 1 \<le> v \<and> v < po_dim po \<longrightarrow> rel_ok po u v"
      by (rule "1.IH"[OF True r ng nxt])
    have "rel_ok po u i" using r ng by (simp add: rel_ok_def)
    then show ?thesis using ih by (metis Suc_eq_plus1 Suc_leI le_neq_implies_less)
  qed
qed

lemma poIsMin_ok: "poIsMin po u = Some True \<Longrightarrow> v < po_dim po \<Longrightarrow> rel_ok po u v"
  using poIsMin_loop_ok[of po u 0] by (simp add: poIsMin_def)

lemma is_valid_inner_ok:
  "is_valid_inner po perm n i j = Some True \<Longrightarrow>
   \<forall>j'. j \<le> j' \<and> j' < n \<longrightarrow> rel_ok po (elements perm ! i) (elements perm ! j')"
proof (induction po perm n i j rule: is_valid_inner.induct)
  case (1 po perm n i j)
  show ?case
  proof (cases "j < n")
    case False
    then show ?thesis by auto
  next
    case True
    from "1.prems" True obtain a where a: "pmElt perm i = Some a"
      by (cases "pmElt perm i") (auto simp: is_valid_inner.simps[of po perm n i j])
    from "1.prems" True a obtain b where b: "pmElt perm j = Some b"
      by (cases "pmElt perm j") (auto simp: is_valid_inner.simps[of po perm n i j])
    from "1.prems" True a b obtain r where r: "poGet po a b = Some r"
      by (cases "poGet po a b") (auto simp: is_valid_inner.simps[of po perm n i j])
    have ng: "r \<noteq> PO_GT"
      using "1.prems" True a b r by (auto simp: is_valid_inner.simps[of po perm n i j] split: if_splits)
    then have nxt: "is_valid_inner po perm n i (j + 1) = Some True"
      using "1.prems" True a b r by (simp add: is_valid_inner.simps[of po perm n i j])
    have ih: "\<forall>j'. j + 1 \<le> j' \<and> j' < n \<longrightarrow> rel_ok po (elements perm ! i) (elements perm ! j')"
      by (rule "1.IH"[OF True a b r ng nxt])
    have ea: "a = elements perm ! i" and eb: "b = elements perm ! j"
      using a b by (auto simp: pmElt_def split: if_splits)
    have "rel_ok po (elements perm ! i) (elements perm ! j)"
      using r ng ea eb by (simp add: rel_ok_def)
    then show ?thesis using ih by (metis Suc_eq_plus1 Suc_leI le_neq_implies_less)
  qed
qed

lemma is_valid_outer_ok:
  "is_valid_outer po perm n i = Some True \<Longrightarrow>
   \<forall>i'. i \<le> i' \<and> i' < pm_size perm \<longrightarrow>
     (\<forall>j'. i' < j' \<and> j' < n \<longrightarrow> rel_ok po (elements perm ! i') (elements perm ! j'))"
proof (induction po perm n i rule: is_valid_outer.induct)
  case (1 po perm n i)
  show ?case
  proof (cases "i < pmLength perm")
    case False
    then show ?thesis by (auto simp: pmLength_def)
  next
    case True
    from "1.prems" True obtain ok where ok: "is_valid_inner po perm n i (i + 1) = Some ok"
      by (cases "is_valid_inner po perm n i (i + 1)") (auto simp: is_valid_outer.simps[of po perm n i])
    have okT: "ok" using "1.prems" True ok
      by (auto simp: is_valid_outer.simps[of po perm n i] split: if_splits)
    then have nxt: "is_valid_outer po perm n (i + 1) = Some True"
      using "1.prems" True ok by (simp add: is_valid_outer.simps[of po perm n i])
    note ih = "1.IH"[OF True ok okT nxt]
    have row: "\<forall>j'. i + 1 \<le> j' \<and> j' < n \<longrightarrow> rel_ok po (elements perm ! i) (elements perm ! j')"
      using is_valid_inner_ok[of po perm n i "i + 1"] ok okT by simp
    show ?thesis
    proof (intro allI impI)
      fix i' j' assume h: "i \<le> i' \<and> i' < pm_size perm" "i' < j' \<and> j' < n"
      show "rel_ok po (elements perm ! i') (elements perm ! j')"
      proof (cases "i' = i")
        case True
        then show ?thesis using row h by simp
      next
        case False
        then have "i + 1 \<le> i'" using h by simp
        then show ?thesis using ih h by blast
      qed
    qed
  qed
qed

lemma is_valid_partial_perm_ok:
  "is_valid_partial_perm po perm n = Some True \<Longrightarrow> valid_partial po perm n"
  using is_valid_outer_ok[of po perm n 0]
  by (auto simp: is_valid_partial_perm_def valid_partial_def)

lemma for_loop_frame:
  assumes "for_loop lo hi body s = Some s'" "P s"
    and "\<And>x t t'. lo \<le> x \<Longrightarrow> x < hi \<Longrightarrow> P t \<Longrightarrow> body x t = Some t' \<Longrightarrow> P t'"
  shows "P s'"
  using assms
proof (induction lo hi body s rule: for_loop.induct)
  case (1 lo hi body s)
  show ?case
  proof (cases "lo < hi")
    case False
    then have "s' = s" using "1.prems"(1) by (simp add: for_loop.simps[of lo hi body s])
    then show ?thesis using "1.prems"(2) by simp
  next
    case True
    from "1.prems"(1) True obtain t where t: "body lo s = Some t"
      by (cases "body lo s") (auto simp: for_loop.simps[of lo hi body s])
    have r: "for_loop (lo + 1) hi body t = Some s'"
      using "1.prems"(1) True t by (simp add: for_loop.simps[of lo hi body s])
    have Pt: "P t" using "1.prems"(3)[OF _ True "1.prems"(2) t] by simp
    show ?thesis
    proof (rule "1.IH"[OF True t r Pt])
      fix x u u' assume "lo + 1 \<le> x" "x < hi" "P u" "body x u = Some u'"
      then show "P u'" using "1.prems"(3)[of x u u'] by simp
    qed
  qed
qed

lemma for_loop_partial:
  assumes "for_loop lo hi body s = Some s'" "lo \<le> hi" "I lo s"
    and "\<And>x t t'. lo \<le> x \<Longrightarrow> x < hi \<Longrightarrow> I x t \<Longrightarrow> body x t = Some t' \<Longrightarrow> I (Suc x) t'"
  shows "I hi s'"
  using assms
proof (induction lo hi body s rule: for_loop.induct)
  case (1 lo hi body s)
  show ?case
  proof (cases "lo < hi")
    case False
    then have "s' = s" using "1.prems"(1) by (simp add: for_loop.simps[of lo hi body s])
    moreover have "lo = hi" using False "1.prems"(2) by simp
    ultimately show ?thesis using "1.prems"(3) by simp
  next
    case True
    from "1.prems"(1) True obtain t where t: "body lo s = Some t"
      by (cases "body lo s") (auto simp: for_loop.simps[of lo hi body s])
    have r: "for_loop (lo + 1) hi body t = Some s'"
      using "1.prems"(1) True t by (simp add: for_loop.simps[of lo hi body s])
    have It: "I (lo + 1) t" using "1.prems"(4)[OF _ True "1.prems"(3) t] by simp
    show ?thesis
    proof (rule "1.IH"[OF True t r _ It])
      show "lo + 1 \<le> hi" using True by simp
    next
      fix x u u' assume "lo + 1 \<le> x" "x < hi" "I x u" "body x u = Some u'"
      then show "I (Suc x) u'" using "1.prems"(4)[of x u u'] by simp
    qed
  qed
qed

lemma make_valid_inner_shape:
  assumes "make_valid_inner po n i (p, v) = Some (q, w)"
  shows "pm_same_shape p q"
proof -
  have "pm_same_shape p (fst (q, w))"
    using assms unfolding make_valid_inner_def
  proof (rule for_loop_frame[where P = "\<lambda>s. pm_same_shape p (fst s)"])
    show "pm_same_shape p (fst (p, v))" by (simp add: pm_same_shape_def)
  next
    fix x t t'
    assume h: "pm_same_shape p (fst t)"
      "(case t of (perm, v1) \<Rightarrow>
          case pmElt perm x of None \<Rightarrow> None | Some v2 \<Rightarrow>
          case poGet po v1 v2 of None \<Rightarrow> None | Some r \<Rightarrow>
            if r = PO_GT then Some (pmSwap perm i x, v2) else Some (perm, v1)) = Some t'"
    then show "pm_same_shape p (fst t')"
      by (auto simp: pm_same_shape_def pmSwap_props split: prod.splits option.splits if_splits)
  qed
  then show ?thesis by simp
qed

lemma make_valid_perm_shape:
  assumes "make_valid_perm po p n = Some q"
  shows "pm_same_shape p q"
proof -
  let ?body = "\<lambda>i perm.
                   case pmElt perm i of None \<Rightarrow> None | Some v1 \<Rightarrow>
                   case make_valid_inner po n i (perm, v1) of
                     None \<Rightarrow> None
                   | Some (perm', v1') \<Rightarrow> Some perm'"
  from assms obtain q' where l: "for_loop (pmLength p) n ?body p = Some q'"
    unfolding make_valid_perm_def Let_def
    by (cases "for_loop (pmLength p) n ?body p") auto
  have "q = q'" using assms l unfolding make_valid_perm_def Let_def
    by (auto split: option.splits if_splits)
  moreover have "pm_same_shape p q'"
    using l
  proof (rule for_loop_frame[where P = "pm_same_shape p"])
    show "pm_same_shape p p" by (simp add: pm_same_shape_def)
  next
    fix x t t' assume h: "pm_same_shape p t" "?body x t = Some t'"
    from h(2) obtain v1 w where "make_valid_inner po n x (t, v1) = Some (t', w)"
      by (auto split: option.splits prod.splits)
    then have "pm_same_shape t t'" by (rule make_valid_inner_shape)
    then show "pm_same_shape p t'" using h(1) by (simp add: pm_same_shape_def)
  qed
  ultimately show ?thesis by simp
qed

lemma init_candidate_ok:
  assumes "i < n" "n \<le> po_dim po" "poIsMin po i = Some True"
    "pmSetSize (pmSwap (pmIdentity (pmNew n)) 0 i) 1 = Some perm"
  shows "pq_entry_ok po n perm"
proof -
  let ?p = "pmSwap (pmIdentity (pmNew n)) 0 i"
  note s = pmSetSize_props[OF assms(4)]
  have id: "pmIdentity (pmNew n) = \<lparr>pm_size = n, pm_capacity = n, elements = [0..<n]\<rparr>"
    by (rule pmIdentity_pmNew)
  have cap: "pm_capacity perm = n" using s(1) by (simp add: pmSwap_props id)
  have el: "elements perm ! k = (if k = i then 0 else if k = 0 then i else k)" if "k < n" for k
  proof -
    have "elements ?p ! k = (if k = i then elements (pmIdentity (pmNew n)) ! 0
        else if k = 0 then elements (pmIdentity (pmNew n)) ! i else elements (pmIdentity (pmNew n)) ! k)"
      by (rule pmSwap_nth) (use assms(1) id in auto)
    then show ?thesis using that assms(1) s(3) id by auto
  qed
  have "valid_partial po perm n"
    unfolding valid_partial_def
  proof (intro ballI)
    fix a b assume a: "a \<in> {0..<pm_size perm}" and b: "b \<in> {a + 1..<n}"
    have a0: "a = 0" using a s(2) by simp
    have bn: "b < n" "b \<noteq> 0" using b by auto
    have ea: "elements perm ! a = i" using el[of 0] a0 assms(1) by auto
    have eb: "elements perm ! b < po_dim po" using el[OF bn(1)] bn assms(1,2) by auto
    show "rel_ok po (elements perm ! a) (elements perm ! b)"
      unfolding ea by (rule poIsMin_ok[OF assms(3) eb])
  qed
  then show ?thesis using cap by (simp add: pq_entry_ok_def)
qed

lemma best_first_init_try_inv:
  assumes "best_first_init_try n bf = Some (e, bf')" "bf_inv bf" "n = bf_n bf" "bf_i bf < n"
    "poIsMin (bf_po bf) (bf_i bf) = Some True"
  shows "bf_inv bf' \<and> bf_n bf' = bf_n bf \<and> bf_po bf' = bf_po bf \<and>
         heap_capacity (bf_pq bf') = heap_capacity (bf_pq bf)"
proof -
  let ?p = "pmSwap (pmIdentity (pmNew n)) 0 (bf_i bf)"
  from assms(1) obtain perm where p: "pmSetSize ?p 1 = Some perm"
    unfolding best_first_init_try_def Let_def by (cases "pmSetSize ?p 1") auto
  obtain err sc c where ev: "bf_evfunc bf (bf_evcontext bf) perm = (err, sc, c)"
    by (cases "bf_evfunc bf (bf_evcontext bf) perm") auto
  have inv: "heap_wf (bf_pq bf)" "bf_n bf \<le> po_dim (bf_po bf)"
    "pm_capacity (bf_next_seq bf) = bf_n bf" "pm_wf (bf_next_seq bf)"
    "heap_all (pq_entry_ok (bf_po bf) (bf_n bf)) (bf_pq bf)"
    using assms(2) unfolding bf_inv_def by blast+
  show ?thesis
  proof (cases "err = RC_ERR_NONE")
    case True
    from assms(1) obtain pq where q: "heap_insert (bf_pq bf) sc perm = Some pq"
      and b: "bf' = bf\<lparr>bf_pq := pq, bf_evcontext := c\<rparr>"
      unfolding best_first_init_try_def Let_def p using ev True
      by (cases "heap_insert (bf_pq bf) sc perm") auto
    have ok: "pq_entry_ok (bf_po bf) (bf_n bf) perm"
      using init_candidate_ok[OF assms(4) _ assms(5) p] inv(2) assms(3) by simp
    have "heap_wf pq" by (rule heap_insert_wf[OF q inv(1)])
    moreover have "heap_all (pq_entry_ok (bf_po bf) (bf_n bf)) pq"
      by (rule heap_insert_all[OF q inv(1) inv(5) ok])
    moreover have "heap_capacity pq = heap_capacity (bf_pq bf)"
      by (rule heap_insert_frame(2)[OF q])
    ultimately show ?thesis using b inv(2,3,4) by (simp add: bf_inv_def)
  next
    case False
    from assms(1) obtain n1 where c1: "pmCopyAll (bf_next_seq bf) perm = Some n1"
      unfolding best_first_init_try_def Let_def p using ev False
      by (cases "pmCopyAll (bf_next_seq bf) perm") auto
    from assms(1) obtain n2 where c2: "make_valid_perm (bf_po bf) n1 n = Some n2"
      unfolding best_first_init_try_def Let_def p using ev False c1
      by (cases "make_valid_perm (bf_po bf) n1 n") auto
    from assms(1) obtain n3 where c3: "pmSetSize n2 n = Some n3"
      and b: "bf' = bf\<lparr>bf_next_seq := n3, bf_evcontext := c\<rparr>"
      unfolding best_first_init_try_def Let_def p using ev False c1 c2
      by (cases "pmSetSize n2 n") auto
    note s1 = pmCopyAll_props[OF c1] and s2 = make_valid_perm_shape[OF c2]
      and s3 = pmSetSize_props[OF c3]
    have "pm_capacity n3 = bf_n bf" "pm_wf n3"
      using s1(1,3) s2 s3(1,3) inv(3,4) by (simp_all add: pm_same_shape_def pm_wf_def)
    then show ?thesis using b inv by (simp add: bf_inv_def)
  qed
qed

lemma best_first_expand_try_inv:
  assumes "best_first_expand_try n bf = Some (e, bf')" "bf_inv bf" "n = bf_n bf"
  shows "bf_inv bf' \<and> bf_n bf' = bf_n bf \<and> bf_po bf' = bf_po bf \<and>
         heap_capacity (bf_pq bf') = heap_capacity (bf_pq bf)"
proof -
  let ?pos = "pmSize (bf_best_seq bf)"
  have inv: "heap_wf (bf_pq bf)" "bf_n bf \<le> po_dim (bf_po bf)"
    "pm_capacity (bf_next_seq bf) = bf_n bf" "pm_wf (bf_next_seq bf)"
    "heap_all (pq_entry_ok (bf_po bf) (bf_n bf)) (bf_pq bf)"
    using assms(2) unfolding bf_inv_def by blast+
  from assms(1) obtain n1 where c1: "pmCopyAll (bf_next_seq bf) (bf_best_seq bf) = Some n1"
    unfolding best_first_expand_try_def Let_def
    by (cases "pmCopyAll (bf_next_seq bf) (bf_best_seq bf)") auto
  from assms(1) obtain nx where c2: "pmSetSize (pmSwap n1 ?pos (bf_j bf)) (?pos + 1) = Some nx"
    unfolding best_first_expand_try_def Let_def c1
    by (cases "pmSetSize (pmSwap n1 ?pos (bf_j bf)) (?pos + 1)") auto
  from assms(1) obtain valid where c3: "is_valid_partial_perm (bf_po bf) nx n = Some valid"
    unfolding best_first_expand_try_def Let_def c1 using c2
    by (cases "is_valid_partial_perm (bf_po bf) nx n") auto
  note s1 = pmCopyAll_props[OF c1] and s2 = pmSetSize_props[OF c2]
  have nx: "pm_capacity nx = bf_n bf" "pm_wf nx"
    using s1(1,3) s2(1,3) inv(3,4) by (simp_all add: pmSwap_props pm_wf_def)
  show ?thesis
  proof (cases valid)
    case False
    then have "bf' = bf\<lparr>bf_next_seq := nx\<rparr>"
      using assms(1) unfolding best_first_expand_try_def Let_def c1 using c2 c3 by simp
    then show ?thesis using inv nx by (simp add: bf_inv_def)
  next
    case True
    obtain err sc c where ev: "bf_evfunc bf (bf_evcontext bf) nx = (err, sc, c)"
      by (cases "bf_evfunc bf (bf_evcontext bf) nx") auto
    show ?thesis
    proof (cases "err = RC_ERR_NONE")
      case e: True
      from assms(1) obtain pq where q: "heap_insert (bf_pq bf) sc (pmDup nx) = Some pq"
        and b: "bf' = bf\<lparr>bf_next_seq := nx, bf_pq := pq, bf_evcontext := c\<rparr>"
        unfolding best_first_expand_try_def Let_def c1 using c2 c3 True ev e
        by (cases "heap_insert (bf_pq bf) sc (pmDup nx)") auto
      have v: "valid_partial (bf_po bf) nx n"
        using is_valid_partial_perm_ok c3 True by simp
      have "valid_partial (bf_po bf) (pmDup nx) n"
        unfolding valid_partial_def
      proof (intro ballI)
        fix a b assume a: "a \<in> {0..<pm_size (pmDup nx)}" and b: "b \<in> {a + 1..<n}"
        have "a < pm_capacity nx" "b < pm_capacity nx" using a b nx(1) assms(3) by auto
        then have "elements (pmDup nx) ! a = elements nx ! a" "elements (pmDup nx) ! b = elements nx ! b"
          using pmDup_props(4) by blast+
        moreover have "rel_ok (bf_po bf) (elements nx ! a) (elements nx ! b)"
          using v a b unfolding valid_partial_def by (simp add: pmDup_props)
        ultimately show "rel_ok (bf_po bf) (elements (pmDup nx) ! a) (elements (pmDup nx) ! b)"
          by simp
      qed
      then have ok: "pq_entry_ok (bf_po bf) (bf_n bf) (pmDup nx)"
        using nx(1) assms(3) by (simp add: pq_entry_ok_def pmDup_props)
      have "heap_wf pq" by (rule heap_insert_wf[OF q inv(1)])
      moreover have "heap_all (pq_entry_ok (bf_po bf) (bf_n bf)) pq"
        by (rule heap_insert_all[OF q inv(1) inv(5) ok])
      moreover have "heap_capacity pq = heap_capacity (bf_pq bf)"
        by (rule heap_insert_frame(2)[OF q])
      ultimately show ?thesis using b inv(2) nx by (simp add: bf_inv_def)
    next
      case e: False
      from assms(1) obtain n2 where d2: "make_valid_perm (bf_po bf) nx n = Some n2"
        unfolding best_first_expand_try_def Let_def c1 using c2 c3 True ev e
        by (cases "make_valid_perm (bf_po bf) nx n") auto
      from assms(1) obtain n3 where d3: "pmSetSize n2 n = Some n3"
        and b: "bf' = bf\<lparr>bf_next_seq := n3, bf_evcontext := c\<rparr>"
        unfolding best_first_expand_try_def Let_def c1 using c2 c3 True ev e d2
        by (cases "pmSetSize n2 n") auto
      note t2 = make_valid_perm_shape[OF d2] and t3 = pmSetSize_props[OF d3]
      have "pm_capacity n3 = bf_n bf" "pm_wf n3"
        using nx t2 t3(1,3) by (simp_all add: pm_same_shape_def pm_wf_def)
      then show ?thesis using b inv by (simp add: bf_inv_def)
    qed
  qed
qed

lemma bf_inv_cursor [simp]:
  "bf_inv (bf\<lparr>bf_i := x\<rparr>) = bf_inv bf" "bf_inv (bf\<lparr>bf_j := x\<rparr>) = bf_inv bf"
  "bf_inv (bf\<lparr>bf_state := s\<rparr>) = bf_inv bf"
  by (simp_all add: bf_inv_def)

lemma bf_keeps_refl: "bf_inv bf \<Longrightarrow> bf_keeps bf bf"
  by (simp add: bf_keeps_def)

lemma bf_keeps_trans: "bf_keeps a b \<Longrightarrow> bf_keeps b c \<Longrightarrow> bf_keeps a c"
  by (simp add: bf_keeps_def)

lemma best_first_init_loop_inv:
  "best_first_init_loop n bf = Some (r, bf') \<Longrightarrow> bf_inv bf \<Longrightarrow> n = bf_n bf \<Longrightarrow> bf_keeps bf bf'"
proof (induction n bf rule: best_first_init_loop.induct)
  case (1 n bf)
  show ?case
  proof (cases "bf_i bf < n")
    case False
    then have "bf' = bf\<lparr>bf_state := RC_BFS_VISIT\<rparr>"
      using "1.prems"(1) by (simp add: best_first_init_loop.simps[of n bf])
    then show ?thesis using "1.prems"(2) by (simp add: bf_keeps_def)
  next
    case True
    note lt = this
    from "1.prems"(1) obtain m where m: "poIsMin (bf_po bf) (bf_i bf) = Some m"
      using lt by (cases "poIsMin (bf_po bf) (bf_i bf)") (auto simp: best_first_init_loop.simps[of n bf])
    show ?thesis
    proof (cases m)
      case False
      then have l: "best_first_init_loop n (bf\<lparr>bf_i := bf_i bf + 1\<rparr>) = Some (r, bf')"
        using "1.prems"(1) lt m by (simp add: best_first_init_loop.simps[of n bf])
      have "bf_keeps (bf\<lparr>bf_i := bf_i bf + 1\<rparr>) bf'"
        by (rule "1.IH"(2)[OF lt m _ l]) (use False "1.prems" in simp_all)
      then show ?thesis by (simp add: bf_keeps_def)
    next
      case True
      from "1.prems"(1) obtain e b where t: "best_first_init_try n bf = Some (e, b)"
        using lt m True
        by (cases "best_first_init_try n bf") (auto simp: best_first_init_loop.simps[of n bf])
      have kb: "bf_keeps bf b"
        using best_first_init_try_inv[OF t "1.prems"(2,3) lt] m True by (simp add: bf_keeps_def)
      show ?thesis
      proof (cases "e = RC_ERR_NONE")
        case False
        then have "bf' = b" using "1.prems"(1) lt m True t
          by (simp add: best_first_init_loop.simps[of n bf])
        then show ?thesis using kb by simp
      next
        case e: True
        have l: "best_first_init_loop n (b\<lparr>bf_i := bf_i b + 1\<rparr>) = Some (r, bf')"
          using "1.prems"(1) lt m True t e by (simp add: best_first_init_loop.simps[of n bf])
        have "bf_keeps (b\<lparr>bf_i := bf_i b + 1\<rparr>) bf'"
          by (rule "1.IH"(1)[OF lt m True t refl _ l])
             (use e kb "1.prems" in \<open>simp_all add: bf_keeps_def\<close>)
        then show ?thesis using kb by (simp add: bf_keeps_def)
      qed
    qed
  qed
qed

lemma best_first_expand_loop_inv:
  "best_first_expand_loop n bf = Some (r, bf') \<Longrightarrow> bf_inv bf \<Longrightarrow> n = bf_n bf \<Longrightarrow> bf_keeps bf bf'"
proof (induction n bf rule: best_first_expand_loop.induct)
  case (1 n bf)
  show ?case
  proof (cases "bf_j bf < n")
    case False
    then have "bf' = bf\<lparr>bf_state := RC_BFS_VISIT\<rparr>"
      using "1.prems"(1) by (simp add: best_first_expand_loop.simps[of n bf])
    then show ?thesis using "1.prems"(2) by (simp add: bf_keeps_def)
  next
    case True
    note lt = this
    from "1.prems"(1) obtain e b where t: "best_first_expand_try n bf = Some (e, b)"
      using lt
      by (cases "best_first_expand_try n bf") (auto simp: best_first_expand_loop.simps[of n bf])
    have kb: "bf_keeps bf b"
      using best_first_expand_try_inv[OF t "1.prems"(2,3)] by (simp add: bf_keeps_def)
    show ?thesis
    proof (cases "e = RC_ERR_NONE")
      case False
      then have "bf' = b" using "1.prems"(1) lt t
        by (simp add: best_first_expand_loop.simps[of n bf])
      then show ?thesis using kb by simp
    next
      case e: True
      have l: "best_first_expand_loop n (b\<lparr>bf_j := bf_j b + 1\<rparr>) = Some (r, bf')"
        using "1.prems"(1) lt t e by (simp add: best_first_expand_loop.simps[of n bf])
      have "bf_keeps (b\<lparr>bf_j := bf_j b + 1\<rparr>) bf'"
        by (rule "1.IH"[OF lt t refl _ l])
           (use e kb "1.prems" in \<open>simp_all add: bf_keeps_def\<close>)
      then show ?thesis using kb by (simp add: bf_keeps_def)
    qed
  qed
qed

lemma best_first_drain_inv:
  "best_first_drain pq = Some pq' \<Longrightarrow> heap_wf pq \<Longrightarrow> heap_all P pq \<Longrightarrow>
   heap_wf pq' \<and> heap_all P pq' \<and> heap_capacity pq' = heap_capacity pq"
proof (induction pq rule: best_first_drain.induct)
  case (1 pq)
  show ?case
  proof (cases "heap_size pq \<noteq> 0")
    case False
    then have "pq' = pq" using "1.prems"(1) by (simp add: best_first_drain.simps[of pq])
    then show ?thesis using "1.prems" by simp
  next
    case True
    from "1.prems"(1) True obtain v q where x: "heap_extract_max pq = Some (v, q)"
      by (cases "heap_extract_max pq") (auto simp: best_first_drain.simps[of pq])
    have l: "best_first_drain q = Some pq'"
      using "1.prems"(1) True x by (simp add: best_first_drain.simps[of pq])
    have "heap_wf q" by (rule heap_extract_max_wf[OF x "1.prems"(2)])
    moreover have "heap_all P q" using heap_extract_max_all[OF x "1.prems"(2,3)] by simp
    ultimately have "heap_wf pq' \<and> heap_all P pq' \<and> heap_capacity pq' = heap_capacity q"
      using "1.IH"[OF True x refl l] by simp
    then show ?thesis using heap_extract_max_frame(2)[OF x] by simp
  qed
qed

lemma best_first_visit_inv:
  assumes "best_first_visit n bf = Some (r, bf')" "bf_inv bf"
  shows "bf_keeps bf bf'"
proof (cases "heap_size (bf_pq bf) = 0")
  case True
  then have "bf' = bf" using assms(1) by (auto simp: best_first_visit_def split: if_splits)
  then show ?thesis using assms(2) by (simp add: bf_keeps_def)
next
  case False
  have inv: "heap_wf (bf_pq bf)" "bf_n bf \<le> po_dim (bf_po bf)"
    "pm_capacity (bf_next_seq bf) = bf_n bf" "pm_wf (bf_next_seq bf)"
    "heap_all (pq_entry_ok (bf_po bf) (bf_n bf)) (bf_pq bf)"
    using assms(2) unfolding bf_inv_def by blast+
  from assms(1) False obtain v q where x: "heap_extract_max (bf_pq bf) = Some (v, q)"
    by (cases "heap_extract_max (bf_pq bf)") (auto simp: best_first_visit_def)
  from assms(1) False x obtain b where c: "pmCopyAll (bf_best_seq bf) v = Some b"
    by (cases "pmCopyAll (bf_best_seq bf) v") (auto simp: best_first_visit_def)
  have q: "heap_wf q" "heap_all (pq_entry_ok (bf_po bf) (bf_n bf)) q"
    "heap_capacity q = heap_capacity (bf_pq bf)"
    using heap_extract_max_wf[OF x inv(1)] heap_extract_max_all[OF x inv(1,5)]
      heap_extract_max_frame(2)[OF x] by simp_all
  have "bf' = bf\<lparr>bf_pq := q, bf_best_seq := b, bf_state := RC_BFS_DONE\<rparr> \<or>
        bf' = bf\<lparr>bf_pq := q, bf_best_seq := b, bf_state := RC_BFS_EXPAND, bf_j := pmSize b\<rparr>"
    using assms(1) False x c by (auto simp: best_first_visit_def Let_def split: if_splits)
  then show ?thesis using q inv by (auto simp: bf_keeps_def bf_inv_def)
qed

lemma best_first_step_inv:
  assumes "best_first_step bf = Some (r, bf')" "bf_inv bf"
  shows "bf_keeps bf bf'"
proof (cases "bf_state bf")
  case RC_BFS_INIT
  then have "best_first_init_loop (bf_n bf) bf = Some (r, bf')"
    using assms(1) by (simp add: best_first_step_def)
  then show ?thesis using assms(2) by (rule best_first_init_loop_inv) simp
next
  case RC_BFS_VISIT
  then have "best_first_visit (bf_n bf) bf = Some (r, bf')"
    using assms(1) by (simp add: best_first_step_def)
  then show ?thesis using assms(2) by (rule best_first_visit_inv)
next
  case RC_BFS_EXPAND
  then have "best_first_expand_loop (bf_n bf) bf = Some (r, bf')"
    using assms(1) by (simp add: best_first_step_def)
  then show ?thesis using assms(2) by (rule best_first_expand_loop_inv) simp
next
  case RC_BFS_DONE
  have inv: "heap_wf (bf_pq bf)" "heap_all (pq_entry_ok (bf_po bf) (bf_n bf)) (bf_pq bf)"
    using assms(2) unfolding bf_inv_def by blast+
  from assms(1) RC_BFS_DONE obtain q where d: "best_first_drain (bf_pq bf) = Some q"
    and b: "bf' = bf\<lparr>bf_pq := q, bf_state := RC_BFS_INIT\<rparr>"
    by (cases "best_first_drain (bf_pq bf)") (auto simp: best_first_step_def)
  show ?thesis
    using best_first_drain_inv[OF d inv] b assms(2) by (simp add: bf_keeps_def bf_inv_def)
qed

lemma best_first_init_inv:
  assumes "n \<le> po_dim po"
  shows "bf_inv (best_first_init junk n po evf ctx)"
  using assms
  by (simp add: bf_inv_def best_first_init_def heap_wf_def heap_new_def heap_all_def pmNew_def pm_wf_def)

text \<open>
  Claim C9 (heap-content invariant of the best-first driver). \<^verbatim>\<open>best_first_init\<close> establishes
  \<open>bf_inv\<close> when \<open>n\<close> is within the dimension of the partial order, every \<^verbatim>\<open>best_first_step\<close>
  that returns preserves it (with \<open>n\<close> and the partial order unchanged), and under \<open>bf_inv\<close> every
  permutation stored in the priority queue is a valid partial permutation, that is
  \<^verbatim>\<open>poGet(po, P[i], P[j]) != PO_GT\<close> for every \<open>i\<close> below its length and every \<open>j\<close> in \<open>(i, n)\<close>,
  and has capacity \<open>n\<close>.
\<close>

theorem best_first_heap_invariant:
  "(n \<le> po_dim po \<longrightarrow> bf_inv (best_first_init junk n po evf ctx)) \<and>
   (bf_inv bf \<and> best_first_step bf = Some (r, bf')
      \<longrightarrow> bf_inv bf' \<and> bf_n bf' = bf_n bf \<and> bf_po bf' = bf_po bf) \<and>
   (bf_inv bf \<longrightarrow>
      (\<forall>k \<in> {1..heap_size (bf_pq bf)}.
         valid_partial (bf_po bf) (val (heap_data (bf_pq bf) ! k)) (bf_n bf) \<and>
         pm_capacity (val (heap_data (bf_pq bf) ! k)) = bf_n bf))"
proof (intro conjI impI)
  assume "n \<le> po_dim po"
  then show "bf_inv (best_first_init junk n po evf ctx)" by (rule best_first_init_inv)
next
  assume a: "bf_inv bf \<and> best_first_step bf = Some (r, bf')"
  then have "bf_keeps bf bf'" using best_first_step_inv by blast
  then show "bf_inv bf'" "bf_n bf' = bf_n bf" "bf_po bf' = bf_po bf"
    by (simp_all add: bf_keeps_def)
next
  assume "bf_inv bf"
  then show "\<forall>k \<in> {1..heap_size (bf_pq bf)}.
         valid_partial (bf_po bf) (val (heap_data (bf_pq bf) ! k)) (bf_n bf) \<and>
         pm_capacity (val (heap_data (bf_pq bf) ! k)) = bf_n bf"
    by (simp add: bf_inv_def heap_all_def pq_entry_ok_def)
qed

theorem best_first_heap_invariant_witness:
  "3 \<le> po_dim po_chain3 \<and> bf_inv bf_start3 \<and>
   (\<exists>bf'. best_first_step bf_start3 = Some (RC_ERR_NONE, bf') \<and> bf_inv bf' \<and>
      heap_size (bf_pq bf') = 1 \<and>
      valid_partial (bf_po bf') (val (heap_data (bf_pq bf') ! 1)) (bf_n bf') \<and>
      pm_capacity (val (heap_data (bf_pq bf') ! 1)) = 3)"
proof -
  have d: "3 \<le> po_dim po_chain3" by code_simp
  have i0: "bf_inv bf_start3"
    using best_first_heap_invariant[of 3 po_chain3 bf_junk
        neg_weighted_sum "()" bf_start3 RC_ERR_NONE bf_start3] d
    unfolding bf_start3_def by blast
  have r: "map_option fst (best_first_step bf_start3) = Some RC_ERR_NONE" by code_simp
  have s: "map_option (\<lambda>p. heap_size (bf_pq (snd p))) (best_first_step bf_start3) = Some 1"
    by code_simp
  from r obtain bf' where st: "best_first_step bf_start3 = Some (RC_ERR_NONE, bf')"
    by (cases "best_first_step bf_start3") auto
  have sz: "heap_size (bf_pq bf') = 1" using s st by simp
  have i1: "bf_inv bf'"
    using best_first_heap_invariant[of 3 po_chain3 bf_junk
        neg_weighted_sum "()" bf_start3 RC_ERR_NONE bf'] i0 st by blast
  have "\<forall>k \<in> {1..heap_size (bf_pq bf')}.
         valid_partial (bf_po bf') (val (heap_data (bf_pq bf') ! k)) (bf_n bf') \<and>
         pm_capacity (val (heap_data (bf_pq bf') ! k)) = bf_n bf'"
    using best_first_heap_invariant[of 3 po_chain3 bf_junk
        neg_weighted_sum "()" bf' RC_ERR_NONE bf'] i1 by blast
  then have "valid_partial (bf_po bf') (val (heap_data (bf_pq bf') ! 1)) (bf_n bf')"
    "pm_capacity (val (heap_data (bf_pq bf') ! 1)) = bf_n bf'"
    using sz by simp_all
  moreover have "bf_n bf' = 3"
    using best_first_heap_invariant[of 3 po_chain3 bf_junk
        neg_weighted_sum "()" bf_start3 RC_ERR_NONE bf'] i0 st
    by (simp add: bf_start3_def best_first_init_def)
  ultimately show ?thesis using d i0 st i1 sz by simp
qed



end
